theory Spec2Isabelle
  imports Main
begin

section \<open>Values and strict inequality\<close>

text \<open>
  The containers of \<^verbatim>\<open>src/core/signal.ts\<close> are generic in the value type and compare
  values with JavaScript's \<^verbatim>\<open>!==\<close>. A value is the number NaN (the one primitive that
  is strictly unequal to itself), any other primitive (numbers, strings, booleans,
  undefined, null: compared by value, with \<open>+0\<close> and \<open>-0\<close> taken as one number), or an
  object or array, which is compared by its reference and carries its elements.
\<close>

datatype 'a jsval = JNaN | JPrim 'a | JObj nat "'a jsval list"

fun strict_neq :: "'a jsval \<Rightarrow> 'a jsval \<Rightarrow> bool" where
  "strict_neq (JPrim a) (JPrim b) = (a \<noteq> b)"
| "strict_neq (JObj r xs) (JObj r' ys) = (r \<noteq> r')"
| "strict_neq _ _ = True"

fun elems :: "'a jsval \<Rightarrow> 'a jsval list" where
  "elems (JObj r xs) = xs"
| "elems _ = []"

section \<open>The store of containers\<close>

text \<open>
  \<^verbatim>\<open>signal(initial)\<close> closes over \<^verbatim>\<open>current\<close> and \<^verbatim>\<open>subscribers\<close>. The model keeps
  every container in a store: a container is its index, \<open>vals\<close> is its \<^verbatim>\<open>current\<close> and
  \<open>subs\<close> its subscriber set in insertion order (every subscriber is a new closure, so
  \<^verbatim>\<open>Set.add\<close> appends). A user function receives the current values of all containers
  (what \<^verbatim>\<open>.value()\<close> of a captured container returns), a fresh object reference (for an
  object or array literal it builds) and its argument.

  The subscribers are the closures the library creates:
  \<^item> \<open>SMap f d\<close> is \<^verbatim>\<open>(newValue) => derived._set(f(newValue))\<close> of \<^verbatim>\<open>map\<close>;
  \<^item> \<open>SBind f r\<close> is the callback \<^verbatim>\<open>bind\<close> subscribes to its source;
  \<^item> \<open>SInner r\<close> is \<^verbatim>\<open>(boundValue) => resultEffect._set(boundValue)\<close>;
  \<^item> \<open>SObs k\<close> is an outside observer, which records the value it is called with.

  An effect is the signal it wraps (\<^verbatim>\<open>value\<close>, \<^verbatim>\<open>map\<close>, \<^verbatim>\<open>subscribe\<close> and \<^verbatim>\<open>_set\<close> are
  those of \<^verbatim>\<open>baseSignal\<close>), so it is a container of the same store. The closure that
  \<^verbatim>\<open>subscribe\<close> returns to unsubscribe is never called by the library and is left out.

  The function given to \<^verbatim>\<open>bind\<close> returns an effect: a new one (\<open>EFresh g\<close> is
  \<^verbatim>\<open>a => effect(g(a))\<close>), an existing one (\<open>EConst h\<close>), or a mapped view of an existing
  one (\<open>EMapOf c g\<close> is \<^verbatim>\<open>a => c.map(g(a))\<close>, as \<^verbatim>\<open>sequence\<close> uses).
\<close>

type_synonym 'a ufun = "(nat \<Rightarrow> 'a jsval) \<Rightarrow> nat \<Rightarrow> 'a jsval \<Rightarrow> 'a jsval"

datatype 'a efun =
    EFresh "'a ufun"
  | EConst "'a jsval \<Rightarrow> nat"
  | EMapOf nat "'a jsval \<Rightarrow> 'a ufun"

datatype 'a sub =
    SObs nat
  | SMap "'a ufun" nat
  | SBind "'a efun" nat
  | SInner nat

record 'a state =
  vals :: "nat \<Rightarrow> 'a jsval"
  subs :: "nat \<Rightarrow> 'a sub list"
  nxt :: nat
  nobj :: nat
  olog :: "(nat \<times> 'a jsval) list"
  emitted :: "nat list"

definition init_state :: "'a state" where
  "init_state = \<lparr>vals = (\<lambda>_. JNaN), subs = (\<lambda>_. []), nxt = 0, nobj = 0, olog = [], emitted = []\<rparr>"

definition signal :: "'a state \<Rightarrow> 'a jsval \<Rightarrow> nat \<times> 'a state" where
  "signal st initial =
     (nxt st, st\<lparr>vals := (vals st)(nxt st := initial), subs := (subs st)(nxt st := []),
                 nxt := Suc (nxt st)\<rparr>)"

definition subscribe :: "'a state \<Rightarrow> nat \<Rightarrow> 'a sub \<Rightarrow> 'a state" where
  "subscribe st s fn = st\<lparr>subs := (subs st)(s := subs st s @ [fn])\<rparr>"

definition call_ufun :: "'a ufun \<Rightarrow> 'a state \<Rightarrow> 'a jsval \<Rightarrow> 'a jsval \<times> 'a state" where
  "call_ufun f st a = (f (vals st) (nobj st) a, st\<lparr>nobj := Suc (nobj st)\<rparr>)"

definition map_sig :: "'a state \<Rightarrow> nat \<Rightarrow> 'a ufun \<Rightarrow> nat \<times> 'a state" where
  "map_sig st s f =
     (let (b, st1) = call_ufun f st (vals st s);
          (derived, st2) = signal st1 b
      in (derived, subscribe st2 s (SMap f derived)))"

definition effect :: "'a state \<Rightarrow> 'a jsval \<Rightarrow> nat \<times> 'a state" where
  "effect st initial = signal st initial"

definition pureEffect :: "'a state \<Rightarrow> 'a jsval \<Rightarrow> nat \<times> 'a state" where
  "pureEffect st v = effect st v"

fun apply_efun :: "'a efun \<Rightarrow> 'a state \<Rightarrow> 'a jsval \<Rightarrow> nat \<times> 'a state" where
  "apply_efun (EFresh g) st a = (let (b, st1) = call_ufun g st a in effect st1 b)"
| "apply_efun (EConst h) st a = (h a, st)"
| "apply_efun (EMapOf c g) st a = map_sig st c (g a)"

definition bind :: "'a state \<Rightarrow> nat \<Rightarrow> 'a efun \<Rightarrow> nat \<times> 'a state" where
  "bind st m f =
     (let (inner, st1) = apply_efun f st (vals st m);
          (resultEffect, st2) = effect st1 (vals st1 inner)
      in (resultEffect, subscribe st2 m (SBind f resultEffect)))"

text \<open>
  \<^verbatim>\<open>_set\<close> stores and notifies when the value differs; \<^verbatim>\<open>notify\<close> calls every subscriber
  with \<^verbatim>\<open>current\<close>, read at each call, and \<^verbatim>\<open>forEach\<close> also visits the subscribers added
  while it runs, so the loop goes by index. The calls nest without a bound that the code
  would know of, so the three functions take fuel, and \<open>None\<close> is a chain of
  notifications that does not come to an end. \<open>emitted\<close> is a history of the containers
  whose \<^verbatim>\<open>notify\<close> ran.
\<close>

fun set_sig :: "nat \<Rightarrow> 'a state \<Rightarrow> nat \<Rightarrow> 'a jsval \<Rightarrow> 'a state option"
  and notify :: "nat \<Rightarrow> 'a state \<Rightarrow> nat \<Rightarrow> nat \<Rightarrow> 'a state option"
  and call_sub :: "nat \<Rightarrow> 'a state \<Rightarrow> nat \<Rightarrow> 'a sub \<Rightarrow> 'a state option" where
  "set_sig 0 st s v = None"
| "set_sig (Suc n) st s v =
     (if strict_neq v (vals st s)
      then notify n (st\<lparr>vals := (vals st)(s := v), emitted := emitted st @ [s]\<rparr>) s 0
      else Some st)"
| "notify 0 st s i = None"
| "notify (Suc n) st s i =
     (if i < length (subs st s)
      then (case call_sub n st s (subs st s ! i) of
              None \<Rightarrow> None
            | Some st1 \<Rightarrow> notify n st1 s (Suc i))
      else Some st)"
| "call_sub 0 st s fn = None"
| "call_sub (Suc n) st s (SObs k) = Some (st\<lparr>olog := olog st @ [(k, vals st s)]\<rparr>)"
| "call_sub (Suc n) st s (SMap f derived) =
     (let (b, st1) = call_ufun f st (vals st s) in set_sig n st1 derived b)"
| "call_sub (Suc n) st s (SBind f resultEffect) =
     (let (newEffect, st1) = apply_efun f st (vals st s)
      in case set_sig n st1 resultEffect (vals st1 newEffect) of
           None \<Rightarrow> None
         | Some st2 \<Rightarrow> Some (subscribe st2 newEffect (SInner resultEffect)))"
| "call_sub (Suc n) st s (SInner resultEffect) = set_sig n st resultEffect (vals st s)"

section \<open>Derived containers that follow their source\<close>

text \<open>
  Two values are the same when they are the same primitive (or both NaN) or the same
  object; \<open>target\<close> is the container a subscriber writes to. \<open>idf\<close> is \<^verbatim>\<open>id\<close> of
  \<^verbatim>\<open>signal.ts\<close>, and \<open>sets\<close> applies a sequence of updates through the setter of one
  container, \<open>set_many\<close> through the setters of several.
\<close>

fun same_val :: "'a jsval \<Rightarrow> 'a jsval \<Rightarrow> bool" where
  "same_val (JObj r xs) (JObj r' ys) = (r = r')"
| "same_val a b = (a = b)"

fun target :: "'a sub \<Rightarrow> nat option" where
  "target (SObs k) = None"
| "target (SMap f d) = Some d"
| "target (SBind f r) = Some r"
| "target (SInner r) = Some r"

definition idf :: "'a ufun" where
  "idf = (\<lambda>rd fr a. a)"

fun sets :: "nat \<Rightarrow> 'a state \<Rightarrow> nat \<Rightarrow> 'a jsval list \<Rightarrow> 'a state option" where
  "sets n st c [] = Some st"
| "sets n st c (v # vs) =
     (case set_sig n st c v of None \<Rightarrow> None | Some st1 \<Rightarrow> sets n st1 c vs)"

fun set_many :: "nat \<Rightarrow> 'a state \<Rightarrow> (nat \<times> 'a jsval) list \<Rightarrow> 'a state option" where
  "set_many n st [] = Some st"
| "set_many n st ((s, v) # ups) =
     (case set_sig n st s v of None \<Rightarrow> None | Some st1 \<Rightarrow> set_many n st1 ups)"

text \<open>
  A store is well formed when every subscriber writes to a container that exists. A
  user function follows the container \<open>c\<close> when, called with the current value of \<open>c\<close>,
  it returns that value. \<open>tracked c k f d\<close> says that the \<open>k\<close>-th subscriber of \<open>c\<close> is the
  closure \<^verbatim>\<open>map\<close> made for the derived container \<open>d\<close> and that nothing else writes to
  \<open>d\<close>; \<open>in_step c d\<close> says that \<open>d\<close> holds the value of \<open>c\<close>.
\<close>

definition wf_state :: "'a state \<Rightarrow> bool" where
  "wf_state st = (\<forall>s. \<forall>fn \<in> set (subs st s). \<forall>t. target fn = Some t \<longrightarrow> t < nxt st)"

definition follows_src :: "'a ufun \<Rightarrow> nat \<Rightarrow> bool" where
  "follows_src f c = (\<forall>rd fr. f rd fr (rd c) = rd c)"

definition tracked :: "nat \<Rightarrow> nat \<Rightarrow> 'a ufun \<Rightarrow> nat \<Rightarrow> 'a state \<Rightarrow> bool" where
  "tracked c k f d st =
     (c < nxt st \<and> d < nxt st \<and> c \<noteq> d \<and> k < length (subs st c) \<and> subs st c ! k = SMap f d \<and>
      (\<forall>s i. i < length (subs st s) \<longrightarrow> (s, i) \<noteq> (c, k) \<longrightarrow> target (subs st s ! i) \<noteq> Some d))"

definition in_step :: "nat \<Rightarrow> nat \<Rightarrow> 'a state \<Rightarrow> bool" where
  "in_step c d st = same_val (vals st d) (vals st c)"

text \<open>
  \<^verbatim>\<open>filterPlugin\<close> of \<^verbatim>\<open>src/plugins/index.ts\<close>:
  \<^verbatim>\<open>signal.map(value => predicate(value) ? value : signal.value())\<close>.
\<close>

definition filterPlugin :: "('a jsval \<Rightarrow> bool) \<Rightarrow> 'a state \<Rightarrow> nat \<Rightarrow> nat \<times> 'a state" where
  "filterPlugin predicate st s =
     map_sig st s (\<lambda>rd fr v. if predicate v then v else rd s)"

text \<open>
  A store made with \<^verbatim>\<open>signal\<close>, \<^verbatim>\<open>map\<close> and outside observers only: every subscriber
  is an observer or the closure of a \<^verbatim>\<open>map\<close>, whose derived container was made after
  its source. \<open>forward_outside X\<close> asks this of the containers outside \<open>X\<close> only, and that
  their subscribers do not write into \<open>X\<close>. Two stores have the same shape when they
  have the same containers with the same subscribers.
\<close>

fun forward_sub :: "nat set \<Rightarrow> nat \<Rightarrow> nat \<Rightarrow> 'a sub \<Rightarrow> bool" where
  "forward_sub X bound s (SObs k) = True"
| "forward_sub X bound s (SMap f d) = (s < d \<and> d < bound \<and> d \<notin> X)"
| "forward_sub X bound s (SBind f r) = False"
| "forward_sub X bound s (SInner r) = False"

definition forward_outside :: "nat set \<Rightarrow> 'a state \<Rightarrow> bool" where
  "forward_outside X st = (\<forall>s. s \<notin> X \<longrightarrow> list_all (forward_sub X (nxt st) s) (subs st s))"

definition forward :: "'a state \<Rightarrow> bool" where
  "forward st = forward_outside {} st"

definition same_shape :: "'a state \<Rightarrow> 'a state \<Rightarrow> bool" where
  "same_shape st st' = (subs st' = subs st \<and> nxt st' = nxt st)"

section \<open>Containers that nothing outside writes to\<close>

text \<open>
  \<open>confined X M\<close>: the containers of \<open>X\<close> exist, and a subscriber that writes to one of
  them sits on a container of \<open>X\<close> or of \<open>M\<close> and is not the subscriber that \<^verbatim>\<open>bind\<close> puts
  on an inner effect. As long as no container of \<open>M\<close> emits, an update outside \<open>X\<close>
  cannot reach \<open>X\<close>.
\<close>

definition confined :: "nat set \<Rightarrow> nat set \<Rightarrow> 'a state \<Rightarrow> bool" where
  "confined X M st =
     ((\<forall>x \<in> X. x < nxt st) \<and>
      (\<forall>s. \<forall>fn \<in> set (subs st s). \<forall>t. target fn = Some t \<longrightarrow> t \<in> X \<longrightarrow>
         s \<in> X \<union> M \<and> fn \<noteq> SInner t))"
section \<open>What a notification leaves in place\<close>

text \<open>
  \<open>grows st st'\<close>: the store \<open>st'\<close> has the containers of \<open>st\<close>, each with the
  subscribers it had in \<open>st\<close> at the same places, and the observer calls of \<open>st\<close>
  are the first ones of \<open>st'\<close>. Nothing in the library removes a subscriber or a
  container. A function handed to \<^verbatim>\<open>bind\<close> returns an existing effect when the effect it
  returns is one it makes (with \<^verbatim>\<open>effect\<close> or \<^verbatim>\<open>map\<close>) or a container below \<open>bound\<close>.
\<close>

definition grows :: "'a state \<Rightarrow> 'a state \<Rightarrow> bool" where
  "grows st st' =
     (nxt st \<le> nxt st' \<and> (\<exists>lg. olog st' = olog st @ lg) \<and>
      (\<forall>s. s < nxt st \<longrightarrow> (\<exists>ext. subs st' s = subs st s @ ext)))"

fun existing_effect :: "'a efun \<Rightarrow> nat \<Rightarrow> bool" where
  "existing_effect (EFresh g) bound = True"
| "existing_effect (EConst h) bound = (\<forall>a. h a < bound)"
| "existing_effect (EMapOf c g) bound = True"




section \<open>The seed of a bind, and sequence\<close>

text \<open>
  \<open>seed_inner\<close> names the effect \<^verbatim>\<open>f(baseSignal.value())\<close> that \<^verbatim>\<open>bind\<close> reads to seed its
  result. \<^verbatim>\<open>sequence\<close> of \<^verbatim>\<open>src/core/effect.ts\<close> folds from the left over the effects,
  from \<^verbatim>\<open>pureEffect([])\<close>, with \<^verbatim>\<open>acc.bind(arr => curr.map(val => [...arr, val]))\<close>; an array
  literal is a new object. The accumulator always holds an array, so \<open>elems\<close> is only
  ever applied to one.
\<close>

definition seed_inner :: "'a state \<Rightarrow> nat \<Rightarrow> 'a efun \<Rightarrow> nat" where
  "seed_inner st m f = fst (apply_efun f st (vals st m))"

definition append_val :: "'a jsval \<Rightarrow> 'a ufun" where
  "append_val arr = (\<lambda>rd fr val. JObj fr (elems arr @ [val]))"

definition sequence :: "'a state \<Rightarrow> nat list \<Rightarrow> nat \<times> 'a state" where
  "sequence st effects =
     foldl (\<lambda>(acc, st1) curr. bind st1 acc (EMapOf curr append_val))
           (pureEffect (st\<lparr>nobj := Suc (nobj st)\<rparr>) (JObj (nobj st) []))
           effects"

text \<open>
  A small world for the monad laws: \<^verbatim>\<open>shared = effect(1)\<close> is container 0 and
  \<^verbatim>\<open>pureEffect(0)\<close> is container 1; the function \<^verbatim>\<open>_ => shared\<close> is \<open>EConst (\<lambda>_. 0)\<close>.
\<close>

definition shared_world :: "nat state" where
  "shared_world = snd (pureEffect (snd (effect init_state (JPrim 1))) (JPrim 0))"

text \<open>
  The invariant of the fold in \<^verbatim>\<open>sequence\<close>: the accumulator is a new container that holds
  the array of the values seen so far, the containers that existed before keep their
  values, and the accumulators form a set that nothing outside writes to; a store that
  was made with \<^verbatim>\<open>signal\<close>, \<^verbatim>\<open>map\<close> and observers still is, outside that set.
\<close>

definition seq_inv :: "'a state \<Rightarrow> nat list \<Rightarrow> nat \<times> 'a state \<Rightarrow> bool" where
  "seq_inv st seen p =
     (wf_state (snd p) \<and> nxt st \<le> fst p \<and> fst p < nxt (snd p) \<and>
      (\<forall>c < nxt st. vals (snd p) c = vals st c) \<and>
      (\<exists>k. vals (snd p) (fst p) = JObj k (map (vals st) seen)) \<and>
      (\<exists>X. fst p \<in> X \<and> confined X {} (snd p) \<and> (\<forall>x \<in> X. nxt st \<le> x) \<and>
           (forward st \<longrightarrow> forward_outside X (snd p))))"

text \<open>A store with \<^verbatim>\<open>effect(1)\<close> as container 0 and \<^verbatim>\<open>effect(2)\<close> as container 1.\<close>

definition two_effects :: "nat state" where
  "two_effects = snd (effect (snd (effect init_state (JPrim 1))) (JPrim 2))"

section \<open>The finite state machine\<close>

text \<open>
  \<^verbatim>\<open>fsm(initialState, transitions)\<close> of the state algebra. The states are strings, an
  action is any value and is compared with \<^verbatim>\<open>===\<close>, and a guard \<^verbatim>\<open>() => boolean\<close> reads
  an environment. The subscribers are observers, which record the state they are called
  with.
\<close>

record ('a, 'e) transition =
  from_state :: string
  to_state :: string
  on_action :: "'a jsval"
  guard :: "('e \<Rightarrow> bool) option"

record ('a, 'e) fsm_state =
  currentState :: string
  transitions :: "('a, 'e) transition list"
  subscribers :: "nat list"
  calls_log :: "(nat \<times> string) list"

definition fsm :: "string \<Rightarrow> ('a, 'e) transition list \<Rightarrow> ('a, 'e) fsm_state" where
  "fsm initialState ts =
     \<lparr>currentState = initialState, transitions = ts, subscribers = [], calls_log = []\<rparr>"

definition matches :: "'e \<Rightarrow> string \<Rightarrow> 'a jsval \<Rightarrow> ('a, 'e) transition \<Rightarrow> bool" where
  "matches env cur action t =
     (from_state t = cur \<and> \<not> strict_neq (on_action t) action \<and>
      (case guard t of None \<Rightarrow> True | Some g \<Rightarrow> g env))"

definition getTransition ::
  "'e \<Rightarrow> ('a, 'e) fsm_state \<Rightarrow> 'a jsval \<Rightarrow> ('a, 'e) transition option" where
  "getTransition env m action = find (matches env (currentState m) action) (transitions m)"

definition fsm_notify :: "('a, 'e) fsm_state \<Rightarrow> ('a, 'e) fsm_state" where
  "fsm_notify m = m\<lparr>calls_log := calls_log m @ map (\<lambda>k. (k, currentState m)) (subscribers m)\<rparr>"

definition send :: "'e \<Rightarrow> ('a, 'e) fsm_state \<Rightarrow> 'a jsval \<Rightarrow> ('a, 'e) fsm_state" where
  "send env m action =
     (case getTransition env m action of
        Some t \<Rightarrow> fsm_notify (m\<lparr>currentState := to_state t\<rparr>)
      | None \<Rightarrow> m)"

definition can :: "'e \<Rightarrow> ('a, 'e) fsm_state \<Rightarrow> 'a jsval \<Rightarrow> bool" where
  "can env m action = (getTransition env m action \<noteq> None)"

definition fsm_subscribe :: "('a, 'e) fsm_state \<Rightarrow> nat \<Rightarrow> ('a, 'e) fsm_state" where
  "fsm_subscribe m k = m\<lparr>subscribers := subscribers m @ [k]\<rparr>"

text \<open>The machine of the specification's example, with one subscriber.\<close>

definition idle_machine :: "(string, unit) fsm_state" where
  "idle_machine =
     fsm_subscribe
       (fsm ''idle'' [\<lparr>from_state = ''idle'', to_state = ''loading'',
                       on_action = JPrim ''start'', guard = None\<rparr>]) 0"

section \<open>The timeout of the time algebra\<close>

text \<open>
  \<^verbatim>\<open>timeout(ms)\<close> of \<^verbatim>\<open>src/algebras/time.ts\<close> makes a container \<^verbatim>\<open>timedOut\<close> seeded with the
  source's value, a flag \<^verbatim>\<open>hasCompleted\<close>, a one-shot timer and a subscriber of the
  source. The value of \<^verbatim>\<open>timedOut\<close> is a value of the source or an \<^verbatim>\<open>Error\<close>, which is a new
  object each time. The state below is what the two closures share; \<open>armed\<close> says that
  the timer is scheduled (it has neither fired nor been cleared), and \<open>stored\<close> lists the
  values that \<^verbatim>\<open>timedOut._set\<close> stored, each of which it notified.
\<close>

datatype 'a timed = Value "'a jsval" | TimeoutError nat

record 'a timeout_state =
  source :: "'a jsval"
  timedOut :: "'a timed"
  hasCompleted :: bool
  armed :: bool
  ms_of :: nat
  stored :: "'a timed list"

definition timeout :: "nat \<Rightarrow> 'a jsval \<Rightarrow> 'a timeout_state" where
  "timeout ms current =
     \<lparr>source = current, timedOut = Value current, hasCompleted = False, armed = True,
      ms_of = ms, stored = []\<rparr>"

fun timed_neq :: "'a timed \<Rightarrow> 'a timed \<Rightarrow> bool" where
  "timed_neq (Value a) (Value b) = strict_neq a b"
| "timed_neq _ _ = True"

definition timedOut_set :: "'a timed \<Rightarrow> 'a timeout_state \<Rightarrow> 'a timeout_state" where
  "timedOut_set v st =
     (if timed_neq v (timedOut st) then st\<lparr>timedOut := v, stored := stored st @ [v]\<rparr> else st)"

text \<open>The callback of \<^verbatim>\<open>setTimeout\<close>, run by the platform if the timer is still scheduled.\<close>

definition timer_fires :: "'a timeout_state \<Rightarrow> 'a timeout_state" where
  "timer_fires st =
     (if armed st
      then (let st1 = st\<lparr>armed := False\<rparr>
            in if \<not> hasCompleted st1 then timedOut_set (TimeoutError (ms_of st1)) st1 else st1)
      else st)"

text \<open>\<^verbatim>\<open>baseEffect._set(v)\<close>: the source stores a differing value and calls the subscriber.\<close>

definition source_set :: "'a jsval \<Rightarrow> 'a timeout_state \<Rightarrow> 'a timeout_state" where
  "source_set v st =
     (if strict_neq v (source st)
      then (let st1 = st\<lparr>source := v\<rparr>
            in if \<not> hasCompleted st1
               then timedOut_set (Value v) (st1\<lparr>hasCompleted := True, armed := False\<rparr>)
               else st1)
      else st)"

section \<open>The network algebra\<close>

text \<open>
  \<^verbatim>\<open>src/algebras/fetch.ts\<close>, for the default \<^verbatim>\<open>deps = []\<close>. A fetch instance is an effect
  that holds an \<^verbatim>\<open>AsyncState\<close>. What the module calls and does not define is a
  parameter: \<open>fetcher\<close> gives what the promise of the \<open>k\<close>-th invocation of the fetcher
  settles to (\<open>Inl\<close> a rejection with its message, \<open>Inr\<close> the data), \<open>truthy\<close> is
  JavaScript's truthiness of the data, \<open>stringify\<close> and \<open>parse\<close> are \<^verbatim>\<open>JSON.stringify\<close> and
  \<^verbatim>\<open>JSON.parse\<close> (\<open>None\<close> when it throws), \<open>parseInt\<close> gives \<open>None\<close> for NaN, and
  \<open>timeString\<close> is \<^verbatim>\<open>toString\<close> of a number.

  The world holds the value of every instance, the subscribers that \<^verbatim>\<open>cache\<close> puts on
  an instance (the cached instance and the key), the number of invocations of the
  fetcher so far, the promises and timers that are pending, the delays given to
  \<^verbatim>\<open>setTimeout\<close>, the local storage and the clock. Every \<^verbatim>\<open>AsyncState\<close> that is written is
  an object its target does not hold yet, so \<^verbatim>\<open>_set\<close> always stores it and notifies.
\<close>

record 'd astate =
  data :: "'d option"
  loading :: bool
  error :: "string option"

datatype task =
    AwaitExec nat nat
  | AwaitAttempt nat nat nat nat
  | Timer nat nat nat nat

record 'd env =
  fetcher :: "nat \<Rightarrow> string + 'd"
  truthy :: "'d \<Rightarrow> bool"
  stringify :: "'d \<Rightarrow> string"
  parse :: "string \<Rightarrow> 'd option"
  parseInt :: "string \<Rightarrow> int option"
  timeString :: "int \<Rightarrow> string"

record 'd world =
  fvals :: "nat \<Rightarrow> 'd astate"
  mirrors :: "nat \<Rightarrow> (nat \<times> string) list"
  fnxt :: nat
  calls :: nat
  pending :: "task list"
  timeouts :: "nat list"
  storage :: "string \<Rightarrow> string option"
  now :: int

definition st_loading :: "'d astate" where
  "st_loading = \<lparr>data = None, loading = True, error = None\<rparr>"

definition st_data :: "'d \<Rightarrow> 'd astate" where
  "st_data d = \<lparr>data = Some d, loading = False, error = None\<rparr>"

definition st_error :: "string \<Rightarrow> 'd astate" where
  "st_error e = \<lparr>data = None, loading = False, error = Some e\<rparr>"

definition cacheKey :: "string \<Rightarrow> string" where
  "cacheKey key = ''fetch_cache_'' @ key"

definition cacheTimeKey :: "string \<Rightarrow> string" where
  "cacheTimeKey key = ''fetch_cache_time_'' @ key"

text \<open>
  The subscriber of \<^verbatim>\<open>cache\<close>: a state with truthy data, not loading and without error
  is written to the storage with the time; every state is passed on to the cached
  instance.
\<close>

definition mirror_store :: "'d env \<Rightarrow> string \<Rightarrow> 'd astate \<Rightarrow> 'd world \<Rightarrow> 'd world" where
  "mirror_store env key v w =
     (case data v of
        Some d \<Rightarrow>
          if truthy env d \<and> \<not> loading v \<and> error v = None
          then w\<lparr>storage := (storage w)(cacheKey key \<mapsto> stringify env d,
                                          cacheTimeKey key \<mapsto> timeString env (now w))\<rparr>
          else w
      | None \<Rightarrow> w)"

fun fset :: "nat \<Rightarrow> 'd env \<Rightarrow> 'd world \<Rightarrow> nat \<Rightarrow> 'd astate \<Rightarrow> 'd world option"
  and fnotify :: "nat \<Rightarrow> 'd env \<Rightarrow> 'd world \<Rightarrow> (nat \<times> string) list \<Rightarrow> 'd astate \<Rightarrow> 'd world option" where
  "fset 0 env w t v = None"
| "fset (Suc n) env w t v = fnotify n env (w\<lparr>fvals := (fvals w)(t := v)\<rparr>) (mirrors w t) v"
| "fnotify 0 env w ms v = None"
| "fnotify (Suc n) env w [] v = Some w"
| "fnotify (Suc n) env w ((cached, key) # ms) v =
     (case fset n env (mirror_store env key v w) cached v of
        None \<Rightarrow> None
      | Some w1 \<Rightarrow> fnotify n env w1 ms v)"

text \<open>
  \<^verbatim>\<open>executeFetch(target)\<close> up to its \<^verbatim>\<open>await\<close>: it sets \<^verbatim>\<open>{loading: true}\<close>, invokes the
  fetcher and waits for the promise. \<^verbatim>\<open>fetch(fetcher)\<close> makes the instance and executes
  the first fetch at once.
\<close>

definition invoke :: "(nat \<Rightarrow> task) \<Rightarrow> 'd world \<Rightarrow> 'd world" where
  "invoke awaiting w = w\<lparr>calls := Suc (calls w), pending := pending w @ [awaiting (calls w)]\<rparr>"

definition executeFetch :: "nat \<Rightarrow> 'd env \<Rightarrow> 'd world \<Rightarrow> nat \<Rightarrow> 'd world option" where
  "executeFetch n env w tgt =
     (case fset n env w tgt st_loading of
        None \<Rightarrow> None
      | Some w1 \<Rightarrow> Some (invoke (AwaitExec tgt) w1))"

definition fetch :: "nat \<Rightarrow> 'd env \<Rightarrow> 'd world \<Rightarrow> (nat \<times> 'd world) option" where
  "fetch n env w =
     (case executeFetch n env
             (w\<lparr>fvals := (fvals w)(fnxt w := st_loading), mirrors := (mirrors w)(fnxt w := []),
                fnxt := Suc (fnxt w)\<rparr>) (fnxt w) of
        None \<Rightarrow> None
      | Some w1 \<Rightarrow> Some (fnxt w, w1))"

text \<open>
  \<^verbatim>\<open>attemptFetch(attemptsLeft)\<close> of \<^verbatim>\<open>retry(n)\<close> up to its \<^verbatim>\<open>await\<close>, and \<^verbatim>\<open>retry(n)\<close> itself:
  it makes the new instance with \<^verbatim>\<open>fetch(fetcher, deps)\<close> and starts \<^verbatim>\<open>attemptFetch(n)\<close>.
\<close>

definition attemptFetch :: "nat \<Rightarrow> 'd env \<Rightarrow> 'd world \<Rightarrow> nat \<Rightarrow> nat \<Rightarrow> nat \<Rightarrow> 'd world option" where
  "attemptFetch fuel env w retryFetch n attemptsLeft =
     (case fset fuel env w retryFetch st_loading of
        None \<Rightarrow> None
      | Some w1 \<Rightarrow> Some (invoke (AwaitAttempt retryFetch n attemptsLeft) w1))"

definition retry :: "nat \<Rightarrow> 'd env \<Rightarrow> 'd world \<Rightarrow> nat \<Rightarrow> (nat \<times> 'd world) option" where
  "retry fuel env w n =
     (case fetch fuel env w of
        None \<Rightarrow> None
      | Some (retryFetch, w1) \<Rightarrow>
          (case attemptFetch fuel env w1 retryFetch n n of
             None \<Rightarrow> None
           | Some w2 \<Rightarrow> Some (retryFetch, w2)))"

text \<open>
  \<^verbatim>\<open>cache(key, ttl)\<close> on the instance \<open>base\<close>: it makes the new instance with
  \<^verbatim>\<open>fetch(fetcher, deps)\<close>, then reads the storage; on a hit it sets the cached data and
  returns, otherwise (no entry, too old, or a failed read) it subscribes to \<open>base\<close>.
\<close>

definition cache_hit :: "'d env \<Rightarrow> 'd world \<Rightarrow> string \<Rightarrow> int \<Rightarrow> 'd option" where
  "cache_hit env w key ttl =
     (case (storage w (cacheKey key), storage w (cacheTimeKey key)) of
        (Some cachedData, Some cacheTime) \<Rightarrow>
          if cachedData \<noteq> [] \<and> cacheTime \<noteq> []
          then (case parseInt env cacheTime of
                  Some t \<Rightarrow> if now w - t < ttl then parse env cachedData else None
                | None \<Rightarrow> None)
          else None
      | _ \<Rightarrow> None)"

definition cache :: "nat \<Rightarrow> 'd env \<Rightarrow> 'd world \<Rightarrow> nat \<Rightarrow> string \<Rightarrow> int \<Rightarrow> (nat \<times> 'd world) option" where
  "cache fuel env w base key ttl =
     (case fetch fuel env w of
        None \<Rightarrow> None
      | Some (cached, w1) \<Rightarrow>
          (case cache_hit env w1 key ttl of
             Some d \<Rightarrow>
               (case fset fuel env w1 cached (st_data d) of
                  None \<Rightarrow> None
                | Some w2 \<Rightarrow> Some (cached, w2))
           | None \<Rightarrow> Some (cached, w1\<lparr>mirrors := (mirrors w1)(base := mirrors w1 base @ [(cached, key)])\<rparr>)))"

text \<open>
  The event loop runs one pending promise continuation or timer at a time; \<open>fire\<close> runs
  the \<open>i\<close>-th pending one. A settled promise of \<^verbatim>\<open>executeFetch\<close> stores the data or the
  error. A settled promise of \<^verbatim>\<open>attemptFetch\<close> stores the data, or on a rejection
  schedules the next attempt after \<^verbatim>\<open>Math.pow(2, n - attemptsLeft) * 1000\<close> ms while
  attempts are left, and stores the error when none is. A timer runs the next
  \<^verbatim>\<open>attemptFetch\<close>.
\<close>

definition fire :: "nat \<Rightarrow> 'd env \<Rightarrow> 'd world \<Rightarrow> nat \<Rightarrow> 'd world option" where
  "fire fuel env w i =
     (if i < length (pending w)
      then (let w1 = w\<lparr>pending := take i (pending w) @ drop (Suc i) (pending w)\<rparr>
            in case pending w ! i of
                 AwaitExec tgt k \<Rightarrow>
                   (case fetcher env k of
                      Inr d \<Rightarrow> fset fuel env w1 tgt (st_data d)
                    | Inl e \<Rightarrow> fset fuel env w1 tgt (st_error e))
               | AwaitAttempt retryFetch n attemptsLeft k \<Rightarrow>
                   (case fetcher env k of
                      Inr d \<Rightarrow> fset fuel env w1 retryFetch (st_data d)
                    | Inl e \<Rightarrow>
                        if attemptsLeft > 0
                        then Some (w1\<lparr>pending := pending w1 @
                                        [Timer (2 ^ (n - attemptsLeft) * 1000) retryFetch n (attemptsLeft - 1)],
                                      timeouts := timeouts w1 @ [2 ^ (n - attemptsLeft) * 1000]\<rparr>)
                        else fset fuel env w1 retryFetch (st_error e))
               | Timer delay retryFetch n attemptsLeft \<Rightarrow>
                   attemptFetch fuel env w1 retryFetch n attemptsLeft)
      else Some w)"

fun run :: "nat \<Rightarrow> 'd env \<Rightarrow> 'd world \<Rightarrow> nat list \<Rightarrow> 'd world option" where
  "run fuel env w [] = Some w"
| "run fuel env w (i # is) =
     (case fire fuel env w i of None \<Rightarrow> None | Some w1 \<Rightarrow> run fuel env w1 is)"

definition init_world :: "'d world" where
  "init_world = \<lparr>fvals = (\<lambda>_. st_loading), mirrors = (\<lambda>_. []), fnxt = 0, calls = 0, pending = [],
                 timeouts = [], storage = (\<lambda>_. None), now = 0\<rparr>"

text \<open>A fetcher that rejects on every invocation, with the other parameters left plain.\<close>

definition failing_env :: "nat env" where
  "failing_env = \<lparr>fetcher = (\<lambda>k. Inl ''Network error''), truthy = (\<lambda>d. d \<noteq> 0),
                  stringify = (\<lambda>d. replicate d CHR ''1''), parse = (\<lambda>s. Some (length s)),
                  parseInt = (\<lambda>s. Some (int (length s))), timeString = (\<lambda>t. replicate (nat t) CHR ''1'')\<rparr>"

text \<open>
  A fetcher that resolves to 7, and a storage that holds the data 3 for the key \<open>user\<close>,
  written at time 4, read at time 10 (numbers are written in unary in the storage).
\<close>

definition resolving_env :: "nat env" where
  "resolving_env = failing_env\<lparr>fetcher := (\<lambda>k. Inr 7)\<rparr>"

definition cached_world :: "nat world" where
  "cached_world =
     init_world\<lparr>storage := [cacheKey ''user'' \<mapsto> ''111'', cacheTimeKey ''user'' \<mapsto> ''1111''],
                now := 10\<rparr>"

text \<open>
  The invocations of the fetcher that a pending task of \<^verbatim>\<open>retry\<close> still stands for when
  every invocation is rejected, and the instance a task writes to.
\<close>

fun invocations_left :: "task \<Rightarrow> nat" where
  "invocations_left (AwaitExec tgt k) = 0"
| "invocations_left (AwaitAttempt retryFetch n attemptsLeft k) = attemptsLeft"
| "invocations_left (Timer delay retryFetch n attemptsLeft) = Suc attemptsLeft"

fun task_instance :: "task \<Rightarrow> nat" where
  "task_instance (AwaitExec tgt k) = tgt"
| "task_instance (AwaitAttempt retryFetch n attemptsLeft k) = retryFetch"
| "task_instance (Timer delay retryFetch n attemptsLeft) = retryFetch"

definition retrying :: "nat \<Rightarrow> nat \<Rightarrow> 'd world \<Rightarrow> bool" where
  "retrying r count w =
     (mirrors w r = [] \<and> list_all (\<lambda>t. task_instance t = r) (pending w) \<and>
      calls w + sum_list (map invocations_left (pending w)) = count \<and>
      (pending w = [] \<longrightarrow> (\<exists>e. fvals w r = st_error e)))"

section \<open>Fuel\<close>

text \<open>
  The fuel bounds how far an evaluation may go and nothing else: an update that comes to
  an end with some fuel comes to the same end with more.
\<close>

lemma more_fuel:
  "(\<forall>st s v st'. set_sig n st s v = Some st' \<longrightarrow> set_sig (Suc n) st s v = Some (st' :: 'a state)) \<and>
   (\<forall>st s i st'. notify n st s i = Some st' \<longrightarrow> notify (Suc n) st s i = Some (st' :: 'a state)) \<and>
   (\<forall>st s fn st'. call_sub n st s fn = Some st' \<longrightarrow> call_sub (Suc n) st s fn = Some (st' :: 'a state))"
proof (induction n)
  case 0
  show ?case by simp
next
  case (Suc n)
  note IHset = Suc.IH[THEN conjunct1, rule_format]
  note IHnot = Suc.IH[THEN conjunct2, THEN conjunct1, rule_format]
  note IHcall = Suc.IH[THEN conjunct2, THEN conjunct2, rule_format]
  have A: "set_sig (Suc (Suc n)) st s v = Some st'"
    if r: "set_sig (Suc n) st s v = Some st'" for st :: "'a state" and s v st'
  proof (cases "strict_neq v (vals st s)")
    case False
    thus ?thesis using r by simp
  next
    case True
    hence "notify n (st\<lparr>vals := (vals st)(s := v), emitted := emitted st @ [s]\<rparr>) s 0 = Some st'"
      using r by simp
    from IHnot[OF this] True show ?thesis by simp
  qed
  have B: "notify (Suc (Suc n)) st s i = Some st'"
    if r: "notify (Suc n) st s i = Some st'" for st :: "'a state" and s i st'
  proof (cases "i < length (subs st s)")
    case False
    thus ?thesis using r by simp
  next
    case True
    then obtain st1 where c1: "call_sub n st s (subs st s ! i) = Some st1"
      and r1: "notify n st1 s (Suc i) = Some st'"
      using r by (auto split: option.splits)
    from IHcall[OF c1] IHnot[OF r1] True show ?thesis by simp
  qed
  have C: "call_sub (Suc (Suc n)) st s fn = Some st'"
    if r: "call_sub (Suc n) st s fn = Some st'" for st :: "'a state" and s fn st'
  proof (cases fn)
    case (SObs j)
    thus ?thesis using r by simp
  next
    case (SMap g e)
    hence "set_sig n (snd (call_ufun g st (vals st s))) e (fst (call_ufun g st (vals st s))) = Some st'"
      using r by (simp add: split_def Let_def)
    from IHset[OF this] show ?thesis by (simp add: SMap split_def Let_def)
  next
    case (SBind g e)
    let ?st1 = "snd (apply_efun g st (vals st s))"
    let ?ne = "fst (apply_efun g st (vals st s))"
    obtain st2 where r1: "set_sig n ?st1 e (vals ?st1 ?ne) = Some st2"
      and eq: "st' = subscribe st2 ?ne (SInner e)"
      using r SBind by (auto simp add: split_def Let_def split: option.splits)
    from IHset[OF r1] show ?thesis by (simp add: SBind eq split_def Let_def)
  next
    case (SInner e)
    hence "set_sig n st e (vals st s) = Some st'" using r by simp
    from IHset[OF this] show ?thesis by (simp add: SInner)
  qed
  show ?case using A B C by blast
qed

lemma set_sig_fuel:
  "set_sig n st s v = Some st' \<Longrightarrow> n \<le> m \<Longrightarrow> set_sig m st s v = Some st'"
proof (induction m)
  case 0
  thus ?case by simp
next
  case (Suc m)
  show ?case
  proof (cases "n = Suc m")
    case True
    thus ?thesis using Suc.prems by simp
  next
    case False
    hence "set_sig m st s v = Some st'" using Suc by simp
    from more_fuel[of m, THEN conjunct1, rule_format, OF this] show ?thesis .
  qed
qed

lemma fuel_le:
  assumes "n \<le> m"
  shows "(set_sig n st s v = Some st' \<longrightarrow> set_sig m st s v = Some st') \<and>
         (notify n st s i = Some st' \<longrightarrow> notify m st s i = Some st') \<and>
         (call_sub n st s fn = Some st' \<longrightarrow> call_sub m st s fn = Some st')"
  using assms
proof (induction m)
  case 0
  thus ?case by simp
next
  case (Suc m)
  show ?case
  proof (cases "n = Suc m")
    case True
    thus ?thesis by simp
  next
    case False
    hence "n \<le> m" using Suc.prems by simp
    from Suc.IH[OF this] more_fuel[of m] show ?thesis by blast
  qed
qed

lemma notify_fuel: "notify n st s i = Some st' \<Longrightarrow> n \<le> m \<Longrightarrow> notify m st s i = Some st'"
  using fuel_le[of n m st s _ st' i] by simp

lemma call_sub_fuel: "call_sub n st s fn = Some st' \<Longrightarrow> n \<le> m \<Longrightarrow> call_sub m st s fn = Some st'"
  using fuel_le[of n m st s _ st' _ fn] by simp

text \<open>
  In a store made with \<^verbatim>\<open>signal\<close>, \<^verbatim>\<open>map\<close> and observers every update comes to an end:
  a notification only goes on to containers made later.
\<close>

lemma forward_same_shape: "forward_outside X st \<Longrightarrow> same_shape st st' \<Longrightarrow> forward_outside X st'"
  by (simp add: forward_outside_def same_shape_def)

lemma same_shape_trans: "same_shape a b \<Longrightarrow> same_shape b c \<Longrightarrow> same_shape a c"
  by (simp add: same_shape_def)

lemma notify_ends:
  assumes targets: "\<And>t st2 v. s < t \<Longrightarrow> t < nxt st0 \<Longrightarrow> t \<notin> X \<Longrightarrow> forward_outside X st2 \<Longrightarrow>
             nxt st2 = nxt st0 \<Longrightarrow>
             \<exists>n st'. set_sig n st2 t v = Some st' \<and> same_shape st2 (st' :: 'a state)"
    and sx: "s \<notin> X"
  shows "forward_outside X st \<Longrightarrow> nxt st = nxt st0 \<Longrightarrow> k = length (subs st s) - i \<Longrightarrow>
         \<exists>n st'. notify n st s i = Some st' \<and> same_shape st (st' :: 'a state)"
proof (induction k arbitrary: i st)
  case 0
  hence "notify (Suc 0) st s i = Some st" by simp
  thus ?case by (metis same_shape_def)
next
  case (Suc k)
  hence il: "i < length (subs st s)" by simp
  have fs: "forward_sub X (nxt st) s (subs st s ! i)"
    using Suc.prems(1) il sx by (simp add: forward_outside_def list_all_length)
  have "\<exists>n st1. call_sub n st s (subs st s ! i) = Some st1 \<and> same_shape st st1"
  proof (cases "subs st s ! i")
    case (SObs j)
    hence "call_sub (Suc 0) st s (subs st s ! i) = Some (st\<lparr>olog := olog st @ [(j, vals st s)]\<rparr>)"
      by simp
    moreover have "same_shape st (st\<lparr>olog := olog st @ [(j, vals st s)]\<rparr>)"
      by (simp add: same_shape_def)
    ultimately show ?thesis by blast
  next
    case (SMap f t)
    let ?st1 = "snd (call_ufun f st (vals st s))"
    let ?b = "fst (call_ufun f st (vals st s))"
    have sh: "same_shape st ?st1" by (simp add: same_shape_def call_ufun_def)
    have t1: "s < t" and t2: "t < nxt st0" and tx: "t \<notin> X" using fs SMap Suc.prems(2) by simp_all
    have t3: "forward_outside X ?st1" by (rule forward_same_shape[OF Suc.prems(1) sh])
    have t4: "nxt ?st1 = nxt st0" using sh Suc.prems(2) by (simp add: same_shape_def)
    from targets[OF t1 t2 tx t3 t4, of ?b]
    obtain n st' where r: "set_sig n ?st1 t ?b = Some st'" and s2: "same_shape ?st1 st'"
      by blast
    have "call_sub (Suc n) st s (subs st s ! i) = Some st'"
      using r SMap by (simp add: split_def Let_def)
    thus ?thesis using same_shape_trans[OF sh s2] by blast
  next
    case (SBind f r)
    thus ?thesis using fs by simp
  next
    case (SInner r)
    thus ?thesis using fs by simp
  qed
  then obtain n1 st1 where c: "call_sub n1 st s (subs st s ! i) = Some st1"
    and sh1: "same_shape st st1" by blast
  have "forward_outside X st1" by (rule forward_same_shape[OF Suc.prems(1) sh1])
  moreover have "nxt st1 = nxt st0" using sh1 Suc.prems(2) by (simp add: same_shape_def)
  moreover have "k = length (subs st1 s) - Suc i" using Suc.prems(3) sh1 by (simp add: same_shape_def)
  ultimately obtain n2 st' where r: "notify n2 st1 s (Suc i) = Some st'" and sh2: "same_shape st1 st'"
    using Suc.IH by blast
  have "call_sub (max n1 n2) st s (subs st s ! i) = Some st1"
    by (rule call_sub_fuel[OF c]) simp
  moreover have "notify (max n1 n2) st1 s (Suc i) = Some st'"
    by (rule notify_fuel[OF r]) simp
  ultimately have "notify (Suc (max n1 n2)) st s i = Some st'" using il by simp
  thus ?case using same_shape_trans[OF sh1 sh2] by blast
qed

lemma set_ends:
  assumes targets: "\<And>t st2 v. s < t \<Longrightarrow> t < nxt st \<Longrightarrow> t \<notin> X \<Longrightarrow> forward_outside X st2 \<Longrightarrow>
             nxt st2 = nxt st \<Longrightarrow>
             \<exists>n st'. set_sig n st2 t v = Some st' \<and> same_shape st2 (st' :: 'a state)"
    and fw: "forward_outside X st" and sx: "s \<notin> X"
  shows "\<exists>n st'. set_sig n st s v = Some st' \<and> same_shape st (st' :: 'a state)"
proof (cases "strict_neq v (vals st s)")
  case False
  hence "set_sig (Suc 0) st s v = Some st" by simp
  thus ?thesis by (metis same_shape_def)
next
  case True
  let ?st1 = "st\<lparr>vals := (vals st)(s := v), emitted := emitted st @ [s]\<rparr>"
  have sh: "same_shape st ?st1" by (simp add: same_shape_def)
  have f1: "forward_outside X ?st1" by (rule forward_same_shape[OF fw sh])
  have "nxt ?st1 = nxt st" by simp
  from notify_ends[of s st X ?st1, OF targets sx f1 this refl]
  obtain n st' where r: "notify n ?st1 s 0 = Some st'" and s2: "same_shape ?st1 st'" by blast
  have "set_sig (Suc n) st s v = Some st'" using r True by simp
  thus ?thesis using same_shape_trans[OF sh s2] by blast
qed

lemma forward_updates_end:
  "\<forall>st s v. forward_outside X st \<and> s \<notin> X \<and> nxt st - s \<le> d \<longrightarrow>
     (\<exists>n st'. set_sig n st s v = Some st' \<and> same_shape st (st' :: 'a state))"
proof (induction d)
  case 0
  show ?case
  proof (intro allI impI)
    fix st :: "'a state" and s v
    assume a: "forward_outside X st \<and> s \<notin> X \<and> nxt st - s \<le> 0"
    hence "\<And>t. s < t \<Longrightarrow> t < nxt st \<Longrightarrow> False" by simp
    hence "\<And>t st2 v. s < t \<Longrightarrow> t < nxt st \<Longrightarrow> t \<notin> X \<Longrightarrow> forward_outside X st2 \<Longrightarrow>
             nxt st2 = nxt st \<Longrightarrow>
             \<exists>n st'. set_sig n st2 t v = Some st' \<and> same_shape st2 (st' :: 'a state)" by blast
    from set_ends[OF this] a show "\<exists>n st'. set_sig n st s v = Some st' \<and> same_shape st st'" by blast
  qed
next
  case (Suc d)
  show ?case
  proof (intro allI impI)
    fix st :: "'a state" and s v
    assume a: "forward_outside X st \<and> s \<notin> X \<and> nxt st - s \<le> Suc d"
    have "\<exists>n st'. set_sig n st2 t v' = Some st' \<and> same_shape st2 st'"
      if "s < t" "t < nxt st" "t \<notin> X" "forward_outside X st2" "nxt st2 = nxt st"
      for t and st2 :: "'a state" and v'
    proof -
      from a have "nxt st - s \<le> Suc d" by simp
      hence "nxt st2 - t \<le> d" using that(1,2,5) by linarith
      with Suc.IH that(3,4) show ?thesis by blast
    qed
    from set_ends[OF this] a show "\<exists>n st'. set_sig n st s v = Some st' \<and> same_shape st st'" by blast
  qed
qed

lemma set_many_fuel:
  "set_many n st ups = Some st' \<Longrightarrow> n \<le> m \<Longrightarrow> set_many m st ups = Some st'"
proof (induction ups arbitrary: st)
  case Nil
  thus ?case by simp
next
  case (Cons u ups)
  obtain s v where u: "u = (s, v)" by (cases u)
  from Cons.prems(1) obtain st1 where r1: "set_sig n st s v = Some st1"
    and r2: "set_many n st1 ups = Some st'"
    by (auto simp add: u split: option.splits)
  from set_sig_fuel[OF r1 Cons.prems(2)] Cons.IH[OF r2 Cons.prems(2)] show ?case by (simp add: u)
qed

lemma set_many_end:
  "forward_outside X st \<Longrightarrow> \<forall>(s, v) \<in> set ups. s \<notin> X \<Longrightarrow>
   \<exists>n st'. set_many n st ups = Some st' \<and> same_shape st (st' :: 'a state)"
proof (induction ups arbitrary: st)
  case Nil
  have "set_many 0 st [] = Some st" by simp
  thus ?case by (metis same_shape_def)
next
  case (Cons u ups)
  obtain s v where u: "u = (s, v)" by (cases u)
  have sx: "s \<notin> X" using Cons.prems(2) u by simp
  obtain n1 st1 where r1: "set_sig n1 st s v = Some st1" and sh1: "same_shape st st1"
    using forward_updates_end[of X "nxt st - s"] Cons.prems(1) sx by blast
  have "\<forall>(s, v) \<in> set ups. s \<notin> X" using Cons.prems(2) by simp
  from Cons.IH[OF forward_same_shape[OF Cons.prems(1) sh1] this]
  obtain n2 st' where r2: "set_many n2 st1 ups = Some st'" and sh2: "same_shape st1 st'" by blast
  have "set_sig (max n1 n2) st s v = Some st1" by (rule set_sig_fuel[OF r1]) simp
  moreover have "set_many (max n1 n2) st1 ups = Some st'" by (rule set_many_fuel[OF r2]) simp
  ultimately have "set_many (max n1 n2) st (u # ups) = Some st'" by (simp add: u)
  thus ?case using same_shape_trans[OF sh1 sh2] by blast
qed

lemma sets_as_set_many: "sets n st c vs = set_many n st (map (Pair c) vs)"
  by (induction vs arbitrary: st) (auto split: option.splits)

lemma sets_end:
  assumes "forward st"
  shows "\<exists>n st'. sets n st c vs = Some st' \<and> same_shape st (st' :: 'a state)"
proof -
  have "\<forall>(s, v) \<in> set (map (Pair c) vs). s \<notin> {}" by simp
  from set_many_end[OF assms[unfolded forward_def] this] show ?thesis
    by (simp add: sets_as_set_many)
qed

lemma forward_outside_map_sig:
  assumes fw: "forward_outside X st" and c: "c < nxt st" and x: "nxt st \<notin> X"
  shows "forward_outside X (snd (map_sig st c f))"
proof -
  have mono: "forward_sub X (nxt st) s fn \<Longrightarrow> forward_sub X (Suc (nxt st)) s fn"
    for s and fn :: "'a sub"
    by (cases fn) auto
  have "list_all (forward_sub X (Suc (nxt st)) s) (subs st s)" if "s \<notin> X" for s
    using fw mono that unfolding forward_outside_def list_all_iff by blast
  thus ?thesis using c x
    by (auto simp add: forward_outside_def map_sig_def call_ufun_def signal_def subscribe_def)
qed

lemma forward_map_sig:
  assumes fw: "forward st" and c: "c < nxt st"
  shows "forward (snd (map_sig st c f))"
  using forward_outside_map_sig[OF fw[unfolded forward_def] c] by (simp add: forward_def)

section \<open>Functor identity\<close>

lemma same_val_refl [simp]: "same_val a a"
  by (cases a) auto

lemma same_val_sym: "same_val a b \<Longrightarrow> same_val b a"
  by (cases a; cases b) auto

lemma same_val_trans: "same_val a b \<Longrightarrow> same_val b c \<Longrightarrow> same_val a c"
  by (cases a; cases b; cases c) auto

lemma not_strict_neq_same: "\<not> strict_neq a b \<Longrightarrow> same_val a b"
  by (cases a; cases b) auto

lemma tracked_call_ufun: "tracked c k f d st \<Longrightarrow> tracked c k f d (snd (call_ufun g st a))"
  by (simp add: tracked_def call_ufun_def)

lemma in_step_call_ufun: "in_step c d (snd (call_ufun g st a)) = in_step c d st"
  by (simp add: in_step_def call_ufun_def)

lemma tracked_signal: "tracked c k f d st \<Longrightarrow> tracked c k f d (snd (signal st v))"
  by (auto simp add: tracked_def signal_def)

lemma in_step_signal: "tracked c k f d st \<Longrightarrow> in_step c d (snd (signal st v)) = in_step c d st"
  by (auto simp add: tracked_def in_step_def signal_def)

lemma tracked_subscribe:
  "tracked c k f d st \<Longrightarrow> target fn \<noteq> Some d \<Longrightarrow> tracked c k f d (subscribe st s fn)"
  by (auto simp add: tracked_def subscribe_def nth_append)

lemma in_step_subscribe: "in_step c d (subscribe st s fn) = in_step c d st"
  by (simp add: in_step_def subscribe_def)

lemma tracked_map_sig:
  "tracked c k f d st \<Longrightarrow> tracked c k f d (snd (map_sig st s g))"
proof -
  assume t: "tracked c k f d st"
  obtain b st1 where cu: "call_ufun g st (vals st s) = (b, st1)" by (cases "call_ufun g st (vals st s)")
  obtain e st2 where sg: "signal st1 b = (e, st2)" by (cases "signal st1 b")
  have t1: "tracked c k f d st1" using tracked_call_ufun[OF t, of g "vals st s"] cu by simp
  have t2: "tracked c k f d st2" using tracked_signal[OF t1, of b] sg by simp
  have e: "e = nxt st1" using sg by (simp add: signal_def)
  have "d < nxt st1" using t1 by (simp add: tracked_def)
  hence "target (SMap g e) \<noteq> Some d" using e by simp
  from tracked_subscribe[OF t2 this] show ?thesis
    by (simp add: map_sig_def cu sg)
qed

lemma in_step_map_sig:
  "tracked c k f d st \<Longrightarrow> in_step c d (snd (map_sig st s g)) = in_step c d st"
proof -
  assume t: "tracked c k f d st"
  obtain b st1 where cu: "call_ufun g st (vals st s) = (b, st1)" by (cases "call_ufun g st (vals st s)")
  obtain e st2 where sg: "signal st1 b = (e, st2)" by (cases "signal st1 b")
  have t1: "tracked c k f d st1" using tracked_call_ufun[OF t, of g "vals st s"] cu by simp
  have "in_step c d st1 = in_step c d st" using in_step_call_ufun[of c d g st "vals st s"] cu by simp
  moreover have "in_step c d st2 = in_step c d st1" using in_step_signal[OF t1, of b] sg by simp
  ultimately show ?thesis
    by (simp add: map_sig_def cu sg in_step_subscribe)
qed

lemma tracked_apply_efun:
  "tracked c k f d st \<Longrightarrow> tracked c k f d (snd (apply_efun g st a))"
proof (cases g)
  case (EFresh g')
  assume t: "tracked c k f d st"
  obtain b st1 where cu: "call_ufun g' st a = (b, st1)" by (cases "call_ufun g' st a")
  have t1: "tracked c k f d st1" using tracked_call_ufun[OF t, of g' a] cu by simp
  show ?thesis using tracked_signal[OF t1, of b] by (simp add: EFresh cu effect_def)
next
  case (EConst h)
  assume "tracked c k f d st"
  thus ?thesis by (simp add: EConst)
next
  case (EMapOf c' g')
  assume "tracked c k f d st"
  thus ?thesis by (simp add: EMapOf tracked_map_sig)
qed

lemma in_step_apply_efun:
  "tracked c k f d st \<Longrightarrow> in_step c d (snd (apply_efun g st a)) = in_step c d st"
proof (cases g)
  case (EFresh g')
  assume t: "tracked c k f d st"
  obtain b st1 where cu: "call_ufun g' st a = (b, st1)" by (cases "call_ufun g' st a")
  have t1: "tracked c k f d st1" using tracked_call_ufun[OF t, of g' a] cu by simp
  have "in_step c d st1 = in_step c d st" using in_step_call_ufun[of c d g' st a] cu by simp
  thus ?thesis using in_step_signal[OF t1, of b] by (simp add: EFresh cu effect_def)
next
  case (EConst h)
  thus ?thesis by simp
next
  case (EMapOf c' g')
  assume "tracked c k f d st"
  thus ?thesis by (simp add: EMapOf in_step_map_sig)
qed


lemma tracked_set_vals:
  "tracked c k f d st \<Longrightarrow>
   tracked c k f d (st\<lparr>vals := (vals st)(s := v), emitted := emitted st @ [s]\<rparr>)"
  by (simp add: tracked_def)

lemma tracking:
  assumes fs: "follows_src f c"
  shows "(\<forall>st s v st'. tracked c k f d st \<longrightarrow> set_sig n st s v = Some st' \<longrightarrow>
            tracked c k f d st' \<and>
            (s \<noteq> d \<longrightarrow> in_step c d st \<longrightarrow> in_step c d st') \<and>
            (s = c \<longrightarrow> strict_neq v (vals st c) \<longrightarrow> in_step c d st') \<and>
            (s = d \<longrightarrow> same_val v (vals st c) \<longrightarrow> in_step c d st')) \<and>
         (\<forall>st s i st'. tracked c k f d st \<longrightarrow> notify n st s i = Some st' \<longrightarrow>
            tracked c k f d st' \<and>
            (in_step c d st \<longrightarrow> in_step c d st') \<and>
            (s = c \<longrightarrow> i \<le> k \<longrightarrow> in_step c d st')) \<and>
         (\<forall>st s i st'. tracked c k f d st \<longrightarrow> i < length (subs st s) \<longrightarrow>
            call_sub n st s (subs st s ! i) = Some st' \<longrightarrow>
            tracked c k f d st' \<and>
            (in_step c d st \<longrightarrow> in_step c d st') \<and>
            (s = c \<longrightarrow> i = k \<longrightarrow> in_step c d st'))"
proof (induction n)
  case 0
  show ?case by simp
next
  case (Suc n)
  note IHset = Suc.IH[THEN conjunct1, rule_format]
  note IHnot = Suc.IH[THEN conjunct2, THEN conjunct1, rule_format]
  note IHcall = Suc.IH[THEN conjunct2, THEN conjunct2, rule_format]
  have A: "tracked c k f d st' \<and>
            (s \<noteq> d \<longrightarrow> in_step c d st \<longrightarrow> in_step c d st') \<and>
            (s = c \<longrightarrow> strict_neq v (vals st c) \<longrightarrow> in_step c d st') \<and>
            (s = d \<longrightarrow> same_val v (vals st c) \<longrightarrow> in_step c d st')"
    if t: "tracked c k f d st" and r: "set_sig (Suc n) st s v = Some st'" for st s v st'
  proof (cases "strict_neq v (vals st s)")
    case False
    hence eq: "st' = st" using r by simp
    have "in_step c d st" if "s = d" "same_val v (vals st c)"
    proof -
      have "same_val v (vals st d)" using False that by (simp add: not_strict_neq_same)
      from same_val_trans[OF same_val_sym[OF this] that(2)] show ?thesis by (simp add: in_step_def)
    qed
    thus ?thesis using t eq False by auto
  next
    case True
    define st1 where "st1 = st\<lparr>vals := (vals st)(s := v), emitted := emitted st @ [s]\<rparr>"
    have r1: "notify n st1 s 0 = Some st'" using r True by (simp add: st1_def)
    have t1: "tracked c k f d st1" unfolding st1_def by (rule tracked_set_vals[OF t])
    note N = IHnot[OF t1 r1]
    have cd: "c \<noteq> d" using t by (simp add: tracked_def)
    have 1: "in_step c d st1" if "s = d" "same_val v (vals st c)"
      using that cd by (simp add: in_step_def st1_def)
    have 2: "in_step c d st1" if "s \<noteq> d" "s \<noteq> c" "in_step c d st"
      using that by (simp add: in_step_def st1_def)
    show ?thesis using N 1 2 by blast
  qed
  have B: "tracked c k f d st' \<and>
            (in_step c d st \<longrightarrow> in_step c d st') \<and>
            (s = c \<longrightarrow> i \<le> k \<longrightarrow> in_step c d st')"
    if t: "tracked c k f d st" and r: "notify (Suc n) st s i = Some st'" for st s i st'
  proof (cases "i < length (subs st s)")
    case False
    hence eq: "st' = st" using r by simp
    have "k < length (subs st c)" using t by (simp add: tracked_def)
    thus ?thesis using t eq False by auto
  next
    case True
    then obtain st1 where c1: "call_sub n st s (subs st s ! i) = Some st1"
      and r1: "notify n st1 s (Suc i) = Some st'"
      using r by (auto split: option.splits)
    note C = IHcall[OF t True c1]
    note N = IHnot[OF C[THEN conjunct1] r1]
    show ?thesis using C N by (cases "i = k") auto
  qed
  have C: "tracked c k f d st' \<and>
            (in_step c d st \<longrightarrow> in_step c d st') \<and>
            (s = c \<longrightarrow> i = k \<longrightarrow> in_step c d st')"
    if t: "tracked c k f d st" and il: "i < length (subs st s)"
      and r: "call_sub (Suc n) st s (subs st s ! i) = Some st'" for st s i st'
  proof (cases "s = c \<and> i = k")
    case True
    hence sub: "subs st s ! i = SMap f d" using t by (simp add: tracked_def)
    obtain b st1 where cu: "call_ufun f st (vals st c) = (b, st1)"
      by (cases "call_ufun f st (vals st c)")
    have b: "b = vals st c" using cu fs by (simp add: call_ufun_def follows_src_def)
    have v1: "vals st1 = vals st" using cu by (auto simp add: call_ufun_def)
    have t1: "tracked c k f d st1" using tracked_call_ufun[OF t, of f "vals st c"] cu by simp
    have r1: "set_sig n st1 d b = Some st'" using r sub True cu by simp
    note S = IHset[OF t1 r1]
    have "same_val b (vals st1 c)" using b v1 by simp
    thus ?thesis using S by blast
  next
    case False
    hence nd: "target (subs st s ! i) \<noteq> Some d" using t il by (auto simp add: tracked_def)
    show ?thesis
    proof (cases "subs st s ! i")
      case (SObs j)
      hence "st' = st\<lparr>olog := olog st @ [(j, vals st s)]\<rparr>" using r by simp
      thus ?thesis using t False by (simp add: tracked_def in_step_def)
    next
      case (SMap g e)
      obtain b st1 where cu: "call_ufun g st (vals st s) = (b, st1)"
        by (cases "call_ufun g st (vals st s)")
      have t1: "tracked c k f d st1" using tracked_call_ufun[OF t, of g "vals st s"] cu by simp
      have i1: "in_step c d st1 = in_step c d st"
        using in_step_call_ufun[of c d g st "vals st s"] cu by simp
      have r1: "set_sig n st1 e b = Some st'" using r SMap cu by simp
      have "e \<noteq> d" using nd SMap by simp
      thus ?thesis using IHset[OF t1 r1] i1 False by blast
    next
      case (SBind g e)
      obtain ne st1 where ap: "apply_efun g st (vals st s) = (ne, st1)"
        by (cases "apply_efun g st (vals st s)")
      have t1: "tracked c k f d st1" using tracked_apply_efun[OF t, of g "vals st s"] ap by simp
      have i1: "in_step c d st1 = in_step c d st"
        using in_step_apply_efun[OF t, of g "vals st s"] ap by simp
      obtain st2 where r1: "set_sig n st1 e (vals st1 ne) = Some st2"
        and eq: "st' = subscribe st2 ne (SInner e)"
        using r SBind ap by (auto split: option.splits)
      have ed: "e \<noteq> d" using nd SBind by simp
      note S = IHset[OF t1 r1]
      have "tracked c k f d st'" unfolding eq
        by (rule tracked_subscribe[OF S[THEN conjunct1]]) (simp add: ed)
      thus ?thesis using S i1 ed False by (simp add: eq in_step_subscribe)
    next
      case (SInner e)
      have r1: "set_sig n st e (vals st s) = Some st'" using r SInner by simp
      have "e \<noteq> d" using nd SInner by simp
      thus ?thesis using IHset[OF t r1] False by blast
    qed
  qed
  show ?case using A B C by blast
qed


lemma tracked_after_map:
  assumes wf: "wf_state st" and c: "c < nxt st"
  shows "tracked c (length (subs st c)) f (fst (map_sig st c f)) (snd (map_sig st c f))"
proof -
  have "target (subs st s ! i) \<noteq> Some (nxt st)" if "i < length (subs st s)" for s i
  proof -
    have "subs st s ! i \<in> set (subs st s)" using that by simp
    with wf show ?thesis unfolding wf_state_def by fastforce
  qed
  thus ?thesis using c
    by (auto simp add: tracked_def map_sig_def call_ufun_def signal_def subscribe_def nth_append)
qed

lemma in_step_after_map:
  assumes c: "c < nxt st" and fs: "follows_src f c"
  shows "in_step c (fst (map_sig st c f)) (snd (map_sig st c f))"
  using c fs
  by (auto simp add: in_step_def map_sig_def call_ufun_def signal_def subscribe_def follows_src_def)

lemma sets_tracking:
  assumes fs: "follows_src f c"
  shows "tracked c k f d st \<Longrightarrow> in_step c d st \<Longrightarrow> sets n st c vs = Some st' \<Longrightarrow>
         tracked c k f d st' \<and> in_step c d st'"
proof (induction vs arbitrary: st)
  case Nil
  thus ?case by simp
next
  case (Cons v vs)
  from Cons.prems(3) obtain st1 where s1: "set_sig n st c v = Some st1"
    and r: "sets n st1 c vs = Some st'"
    by (auto split: option.splits)
  have cd: "c \<noteq> d" using Cons.prems(1) by (simp add: tracked_def)
  from tracking[OF fs, of k d n, THEN conjunct1, rule_format, OF Cons.prems(1) s1]
  have "tracked c k f d st1" "in_step c d st1" using cd Cons.prems(2) by auto
  from Cons.IH[OF this r] show ?case .
qed

text \<open>
  C4 (functor identity). For a container \<open>c\<close> of a well-formed store, after
  \<^verbatim>\<open>c.map(id)\<close> and any sequence of updates through the setter of \<open>c\<close>, each of which
  comes to an end, the derived container holds the same value as \<open>c\<close>: the same
  primitive, or the same object. The sequence is arbitrary, so this holds after every
  update. In a store made with \<^verbatim>\<open>signal\<close>, \<^verbatim>\<open>map\<close> and observers every such sequence
  does come to an end.
\<close>

theorem map_identity_value:
  assumes "wf_state st" and "c < nxt st"
  shows "(sets n (snd (map_sig st c idf)) c vs = Some st' \<longrightarrow>
            same_val (vals st' (fst (map_sig st c idf))) (vals st' c)) \<and>
         (forward st \<longrightarrow>
            (\<exists>m st''. sets m (snd (map_sig st c idf)) c vs = Some st'' \<and>
                       same_val (vals st'' (fst (map_sig st c idf))) (vals st'' c)))"
proof -
  have fs: "follows_src idf c" by (simp add: follows_src_def idf_def)
  have law: "same_val (vals st2 (fst (map_sig st c idf))) (vals st2 c)"
    if "sets k (snd (map_sig st c idf)) c vs = Some st2" for k st2
    using sets_tracking[OF fs tracked_after_map[OF assms] in_step_after_map[OF assms(2) fs] that]
    by (simp add: in_step_def)
  have "\<exists>m st''. sets m (snd (map_sig st c idf)) c vs = Some st'' \<and>
                   same_val (vals st'' (fst (map_sig st c idf))) (vals st'' c)"
    if fw: "forward st"
  proof -
    obtain m st'' where "sets m (snd (map_sig st c idf)) c vs = Some st''"
      using sets_end[OF forward_map_sig[OF fw assms(2)]] by blast
    with law show ?thesis by blast
  qed
  with law show ?thesis by blast
qed

theorem map_identity_value_witness:
  "wf_state (snd (signal (init_state :: nat state) (JPrim 5))) \<and>
   0 < nxt (snd (signal (init_state :: nat state) (JPrim 5))) \<and>
   forward (snd (signal (init_state :: nat state) (JPrim 5))) \<and>
   (\<exists>st'. sets 5 (snd (map_sig (snd (signal (init_state :: nat state) (JPrim 5))) 0 idf)) 0 [JPrim 7, JPrim 7, JNaN]
           = Some st' \<and>
          same_val (vals st' (fst (map_sig (snd (signal (init_state :: nat state) (JPrim 5))) 0 idf))) (vals st' 0) \<and>
          vals st' 0 = JNaN) \<and>
   (\<exists>m st'. sets m (snd (map_sig (snd (signal (init_state :: nat state) (JPrim 5))) 0 idf)) 0 [JPrim 7, JPrim 8]
           = Some st' \<and>
          same_val (vals st' (fst (map_sig (snd (signal (init_state :: nat state) (JPrim 5))) 0 idf))) (vals st' 0))"
proof -
  let ?st = "snd (signal (init_state :: nat state) (JPrim 5))"
  have w: "wf_state ?st" by (simp add: wf_state_def signal_def init_state_def)
  have c: "0 < nxt ?st" by (simp add: signal_def init_state_def)
  have f: "forward ?st" by (simp add: forward_def forward_outside_def signal_def init_state_def)
  have "sets 5 (snd (map_sig ?st 0 idf)) 0 [JPrim 7, JPrim 7, JNaN] \<noteq> None"
    by (simp add: numeral_eq_Suc map_sig_def call_ufun_def signal_def subscribe_def init_state_def idf_def)
  then obtain st' where s: "sets 5 (snd (map_sig ?st 0 idf)) 0 [JPrim 7, JPrim 7, JNaN] = Some st'"
    by auto
  have v: "vals st' 0 = JNaN" using s
    by (auto simp add: numeral_eq_Suc map_sig_def call_ufun_def signal_def subscribe_def init_state_def idf_def)
  note T = map_identity_value[OF w c]
  have 1: "same_val (vals st' (fst (map_sig ?st 0 idf))) (vals st' 0)"
    using T[of 5 "[JPrim 7, JPrim 7, JNaN]" st', THEN conjunct1] s by blast
  have 2: "\<exists>m st'. sets m (snd (map_sig ?st 0 idf)) 0 [JPrim 7, JPrim 8] = Some st' \<and>
          same_val (vals st' (fst (map_sig ?st 0 idf))) (vals st' 0)"
    using T[of _ "[JPrim 7, JPrim 8]", THEN conjunct2] f by blast
  from w c f s v 1 2 show ?thesis by blast
qed

section \<open>The filter plugin\<close>

lemma wf_state_map_sig:
  assumes wf: "wf_state st" and s: "s < nxt st"
  shows "wf_state (snd (map_sig st s f))"
proof -
  have "t < Suc (nxt st)" if "fn \<in> set (subs st s')" "target fn = Some t" for s' fn t
    using wf that unfolding wf_state_def by fastforce
  thus ?thesis using s
    by (auto simp add: wf_state_def map_sig_def call_ufun_def signal_def subscribe_def)
qed

lemma nxt_map_sig: "nxt (snd (map_sig st s f)) = Suc (nxt st)"
  by (simp add: map_sig_def call_ufun_def signal_def subscribe_def)

text \<open>
  C9 (the filter plugin filters nothing). For a predicate \<open>p\<close> and a container \<open>s\<close> of a
  well-formed store, build \<^verbatim>\<open>filterPlugin(p)(s)\<close> and \<^verbatim>\<open>s.map(id)\<close>. After any sequence of
  updates of \<open>s\<close>, each of which comes to an end, the two hold the same value, and it is
  the value of \<open>s\<close>, whatever \<open>p\<close> says of it: the fallback branch reads \<open>s\<close> after \<open>s\<close>
  has stored the new value. In a store made with \<^verbatim>\<open>signal\<close>, \<^verbatim>\<open>map\<close> and observers every
  such sequence does come to an end.
\<close>

theorem filterPlugin_is_map_identity:
  assumes "wf_state st" and "s < nxt st"
  shows "(sets n (snd (map_sig (snd (filterPlugin p st s)) s idf)) s vs = Some st' \<longrightarrow>
            same_val (vals st' (fst (filterPlugin p st s)))
                     (vals st' (fst (map_sig (snd (filterPlugin p st s)) s idf))) \<and>
            same_val (vals st' (fst (filterPlugin p st s))) (vals st' s)) \<and>
         (forward st \<longrightarrow>
            (\<exists>m st''. sets m (snd (map_sig (snd (filterPlugin p st s)) s idf)) s vs = Some st'' \<and>
                       same_val (vals st'' (fst (filterPlugin p st s))) (vals st'' s)))"
proof -
  let ?g = "\<lambda>rd fr v. if p v then v else rd s"
  let ?st1 = "snd (map_sig st s ?g)"
  let ?fl = "fst (map_sig st s ?g)"
  let ?st2 = "snd (map_sig ?st1 s idf)"
  let ?m = "fst (map_sig ?st1 s idf)"
  have fg: "follows_src ?g s" by (simp add: follows_src_def)
  have fi: "follows_src idf s" by (simp add: follows_src_def idf_def)
  have wf1: "wf_state ?st1" by (rule wf_state_map_sig[OF assms(1,2)])
  have s1: "s < nxt ?st1" using assms(2) by (simp add: nxt_map_sig)
  have t1: "tracked s (length (subs st s)) ?g ?fl ?st1" by (rule tracked_after_map[OF assms(1,2)])
  have t2: "tracked s (length (subs st s)) ?g ?fl ?st2" by (rule tracked_map_sig[OF t1])
  have i2: "in_step s ?fl ?st2"
    using in_step_after_map[OF assms(2) fg] in_step_map_sig[OF t1, of s idf] by simp
  have t3: "tracked s (length (subs ?st1 s)) idf ?m ?st2" by (rule tracked_after_map[OF wf1 s1])
  have i3: "in_step s ?m ?st2" by (rule in_step_after_map[OF s1 fi])
  have law: "same_val (vals st2 ?fl) (vals st2 ?m) \<and> same_val (vals st2 ?fl) (vals st2 s)"
    if run: "sets k ?st2 s vs = Some st2" for k st2
  proof -
    from sets_tracking[OF fg t2 i2 run] have a: "same_val (vals st2 ?fl) (vals st2 s)"
      by (simp add: in_step_def)
    from sets_tracking[OF fi t3 i3 run] have b: "same_val (vals st2 ?m) (vals st2 s)"
      by (simp add: in_step_def)
    from same_val_trans[OF a same_val_sym[OF b]] a show ?thesis by simp
  qed
  have "\<exists>m st''. sets m ?st2 s vs = Some st'' \<and> same_val (vals st'' ?fl) (vals st'' s)"
    if fw: "forward st"
  proof -
    have "forward ?st2" by (rule forward_map_sig[OF forward_map_sig[OF fw assms(2)] s1])
    from sets_end[OF this] obtain m st'' where "sets m ?st2 s vs = Some st''" by blast
    with law show ?thesis by blast
  qed
  with law show ?thesis by (simp add: filterPlugin_def)
qed

theorem filterPlugin_is_map_identity_witness:
  "wf_state (snd (signal (init_state :: nat state) (JPrim 5))) \<and>
   0 < nxt (snd (signal (init_state :: nat state) (JPrim 5))) \<and>
   forward (snd (signal (init_state :: nat state) (JPrim 5))) \<and>
   (\<exists>st'. sets 6 (snd (map_sig (snd (filterPlugin (\<lambda>v. v = JPrim 5)
                 (snd (signal (init_state :: nat state) (JPrim 5))) 0)) 0 idf)) 0 [JPrim 7, JPrim 8]
           = Some st' \<and>
          same_val (vals st' (fst (filterPlugin (\<lambda>v. v = JPrim 5) (snd (signal (init_state :: nat state) (JPrim 5))) 0)))
                   (vals st' 0) \<and>
          vals st' 0 = JPrim 8) \<and>
   (\<exists>m st'. sets m (snd (map_sig (snd (filterPlugin (\<lambda>v. v = JPrim 5)
                 (snd (signal (init_state :: nat state) (JPrim 5))) 0)) 0 idf)) 0 [JPrim 6]
           = Some st' \<and>
          same_val (vals st' (fst (filterPlugin (\<lambda>v. v = JPrim 5) (snd (signal (init_state :: nat state) (JPrim 5))) 0)))
                   (vals st' 0))"
proof -
  let ?st = "snd (signal (init_state :: nat state) (JPrim 5))"
  let ?p = "\<lambda>v::nat jsval. v = JPrim 5"
  have w: "wf_state ?st" by (simp add: wf_state_def signal_def init_state_def)
  have c: "0 < nxt ?st" by (simp add: signal_def init_state_def)
  have f: "forward ?st" by (simp add: forward_def forward_outside_def signal_def init_state_def)
  have "sets 6 (snd (map_sig (snd (filterPlugin ?p ?st 0)) 0 idf)) 0 [JPrim 7, JPrim 8] \<noteq> None"
    by (simp add: numeral_eq_Suc filterPlugin_def map_sig_def call_ufun_def signal_def
        subscribe_def init_state_def idf_def)
  then obtain st' where
    s: "sets 6 (snd (map_sig (snd (filterPlugin ?p ?st 0)) 0 idf)) 0 [JPrim 7, JPrim 8] = Some st'"
    by auto
  have v: "vals st' 0 = JPrim 8" using s
    by (auto simp add: numeral_eq_Suc filterPlugin_def map_sig_def call_ufun_def signal_def
        subscribe_def init_state_def idf_def)
  note T = filterPlugin_is_map_identity[OF w c, of _ ?p]
  have 1: "same_val (vals st' (fst (filterPlugin ?p ?st 0))) (vals st' 0)"
    using T[of 6 "[JPrim 7, JPrim 8]" st', THEN conjunct1] s by blast
  have 2: "\<exists>m st'. sets m (snd (map_sig (snd (filterPlugin ?p ?st 0)) 0 idf)) 0 [JPrim 6] = Some st' \<and>
          same_val (vals st' (fst (filterPlugin ?p ?st 0))) (vals st' 0)"
    using T[of _ "[JPrim 6]", THEN conjunct2] f by blast
  from w c f s v 1 2 show ?thesis by blast
qed

section \<open>Updates that cannot reach a container\<close>

lemma emitted_apply_efun: "emitted (snd (apply_efun g st a)) = emitted st"
  by (cases g) (simp_all add: call_ufun_def effect_def signal_def map_sig_def subscribe_def split_def)

lemma emitted_grows:
  "(\<forall>st s v st'. set_sig n st s v = Some st' \<longrightarrow> (\<exists>tr. emitted st' = emitted (st :: 'a state) @ tr)) \<and>
   (\<forall>st s i st'. notify n st s i = Some st' \<longrightarrow> (\<exists>tr. emitted st' = emitted (st :: 'a state) @ tr)) \<and>
   (\<forall>st s fn st'. call_sub n st s fn = Some st' \<longrightarrow> (\<exists>tr. emitted st' = emitted (st :: 'a state) @ tr))"
proof (induction n)
  case 0
  show ?case by simp
next
  case (Suc n)
  note IHset = Suc.IH[THEN conjunct1, rule_format]
  note IHnot = Suc.IH[THEN conjunct2, THEN conjunct1, rule_format]
  note IHcall = Suc.IH[THEN conjunct2, THEN conjunct2, rule_format]
  have A: "\<exists>tr. emitted st' = emitted st @ tr"
    if r: "set_sig (Suc n) st s v = Some st'" for st :: "'a state" and s v st'
  proof (cases "strict_neq v (vals st s)")
    case False
    thus ?thesis using r by simp
  next
    case True
    hence "notify n (st\<lparr>vals := (vals st)(s := v), emitted := emitted st @ [s]\<rparr>) s 0 = Some st'"
      using r by simp
    from IHnot[OF this] show ?thesis by auto
  qed
  have B: "\<exists>tr. emitted st' = emitted st @ tr"
    if r: "notify (Suc n) st s i = Some st'" for st :: "'a state" and s i st'
  proof (cases "i < length (subs st s)")
    case False
    thus ?thesis using r by simp
  next
    case True
    then obtain st1 where c1: "call_sub n st s (subs st s ! i) = Some st1"
      and r1: "notify n st1 s (Suc i) = Some st'"
      using r by (auto split: option.splits)
    from IHcall[OF c1] IHnot[OF r1] show ?thesis by auto
  qed
  have C: "\<exists>tr. emitted st' = emitted st @ tr"
    if r: "call_sub (Suc n) st s fn = Some st'" for st :: "'a state" and s fn st'
  proof (cases fn)
    case (SObs j)
    thus ?thesis using r by auto
  next
    case (SMap g e)
    hence "set_sig n (snd (call_ufun g st (vals st s))) e (fst (call_ufun g st (vals st s))) = Some st'"
      using r by (simp add: split_def Let_def)
    from IHset[OF this] show ?thesis by (simp add: call_ufun_def)
  next
    case (SBind g e)
    let ?st1 = "snd (apply_efun g st (vals st s))"
    let ?ne = "fst (apply_efun g st (vals st s))"
    obtain st2 where r1: "set_sig n ?st1 e (vals ?st1 ?ne) = Some st2"
      and eq: "st' = subscribe st2 ?ne (SInner e)"
      using r SBind by (auto simp add: split_def Let_def split: option.splits)
    from IHset[OF r1] show ?thesis by (simp add: eq subscribe_def emitted_apply_efun)
  next
    case (SInner e)
    hence "set_sig n st e (vals st s) = Some st'" using r by simp
    from IHset[OF this] show ?thesis .
  qed
  show ?case using A B C by blast
qed

lemma confined_call_ufun:
  "confined X M st \<Longrightarrow> confined X M (snd (call_ufun g st a))"
  by (simp add: confined_def call_ufun_def)

lemma confined_signal:
  "confined X M st \<Longrightarrow> confined X M (snd (signal st v))"
  by (auto simp add: confined_def signal_def)

lemma vals_signal: "confined X M st \<Longrightarrow> x \<in> X \<Longrightarrow> vals (snd (signal st v)) x = vals st x"
  by (auto simp add: confined_def signal_def)

lemma confined_subscribe:
  "confined X M st \<Longrightarrow> (\<forall>t. target fn = Some t \<longrightarrow> t \<in> X \<longrightarrow> s \<in> X \<union> M \<and> fn \<noteq> SInner t) \<Longrightarrow>
   confined X M (subscribe st s fn)"
  by (auto simp add: confined_def subscribe_def)

lemma confined_map_sig:
  assumes c: "confined X M st"
  shows "confined X M (snd (map_sig st s g)) \<and> (\<forall>x \<in> X. vals (snd (map_sig st s g)) x = vals st x)"
proof -
  let ?st1 = "snd (call_ufun g st (vals st s))"
  let ?b = "fst (call_ufun g st (vals st s))"
  have c1: "confined X M ?st1" by (rule confined_call_ufun[OF c])
  have c2: "confined X M (snd (signal ?st1 ?b))" by (rule confined_signal[OF c1])
  have e: "fst (signal ?st1 ?b) = nxt ?st1" by (simp add: signal_def)
  have "nxt ?st1 \<notin> X" using c1 by (auto simp add: confined_def)
  hence c3: "confined X M (subscribe (snd (signal ?st1 ?b)) s (SMap g (fst (signal ?st1 ?b))))"
    by (intro confined_subscribe[OF c2]) (simp add: e)
  have v: "vals (snd (signal ?st1 ?b)) x = vals st x" if "x \<in> X" for x
    using vals_signal[OF c1 that, of ?b] by (simp add: call_ufun_def)
  have "confined X M (snd (map_sig st s g))" using c3 by (simp add: map_sig_def split_def Let_def)
  moreover have "vals (snd (map_sig st s g)) x = vals st x" if "x \<in> X" for x
    using v[OF that] by (simp add: map_sig_def split_def Let_def subscribe_def)
  ultimately show ?thesis by blast
qed

lemma confined_apply_efun:
  assumes c: "confined X M st"
  shows "confined X M (snd (apply_efun g st a)) \<and>
         (\<forall>x \<in> X. vals (snd (apply_efun g st a)) x = vals st x)"
proof (cases g)
  case (EFresh g')
  let ?st1 = "snd (call_ufun g' st a)"
  have c1: "confined X M ?st1" by (rule confined_call_ufun[OF c])
  have "vals (snd (signal ?st1 b)) x = vals st x" if "x \<in> X" for x b
    using vals_signal[OF c1 that, of b] by (simp add: call_ufun_def)
  thus ?thesis using confined_signal[OF c1] by (simp add: EFresh effect_def split_def Let_def)
next
  case (EConst h)
  thus ?thesis using c by simp
next
  case (EMapOf c' g')
  thus ?thesis using confined_map_sig[OF c] by simp
qed

lemma confined_set_vals:
  "confined X M st \<Longrightarrow>
   confined X M (st\<lparr>vals := (vals st)(s := v), emitted := emitted st @ [s]\<rparr>)"
  by (simp add: confined_def)

lemma frame:
  "(\<forall>st s v st' tr. confined X M st \<longrightarrow> s \<notin> X \<longrightarrow> set_sig n st s v = Some st' \<longrightarrow>
      emitted st' = emitted st @ tr \<longrightarrow> set tr \<inter> M = {} \<longrightarrow>
      confined X M st' \<and> (\<forall>x \<in> X. vals st' x = vals (st :: 'a state) x)) \<and>
   (\<forall>st s i st' tr. confined X M st \<longrightarrow> s \<notin> X \<longrightarrow> s \<notin> M \<longrightarrow> notify n st s i = Some st' \<longrightarrow>
      emitted st' = emitted st @ tr \<longrightarrow> set tr \<inter> M = {} \<longrightarrow>
      confined X M st' \<and> (\<forall>x \<in> X. vals st' x = vals (st :: 'a state) x)) \<and>
   (\<forall>st s fn st' tr. confined X M st \<longrightarrow> s \<notin> X \<longrightarrow> s \<notin> M \<longrightarrow> fn \<in> set (subs st s) \<longrightarrow>
      call_sub n st s fn = Some st' \<longrightarrow>
      emitted st' = emitted st @ tr \<longrightarrow> set tr \<inter> M = {} \<longrightarrow>
      confined X M st' \<and> (\<forall>x \<in> X. vals st' x = vals (st :: 'a state) x))"
proof (induction n)
  case 0
  show ?case by simp
next
  case (Suc n)
  note IHset = Suc.IH[THEN conjunct1, rule_format]
  note IHnot = Suc.IH[THEN conjunct2, THEN conjunct1, rule_format]
  note IHcall = Suc.IH[THEN conjunct2, THEN conjunct2, rule_format]
  have A: "confined X M st' \<and> (\<forall>x \<in> X. vals st' x = vals st x)"
    if c: "confined X M st" and sx: "s \<notin> X" and r: "set_sig (Suc n) st s v = Some st'"
      and e: "emitted st' = emitted st @ tr" and m: "set tr \<inter> M = {}"
    for st :: "'a state" and s v st' tr
  proof (cases "strict_neq v (vals st s)")
    case False
    thus ?thesis using r c by simp
  next
    case True
    let ?st1 = "st\<lparr>vals := (vals st)(s := v), emitted := emitted st @ [s]\<rparr>"
    have r1: "notify n ?st1 s 0 = Some st'" using r True by simp
    obtain tr1 where e1: "emitted st' = emitted ?st1 @ tr1"
      using emitted_grows[of n, THEN conjunct2, THEN conjunct1, rule_format, OF r1] by blast
    hence tr: "tr = s # tr1" using e by simp
    hence sm: "s \<notin> M" and m1: "set tr1 \<inter> M = {}" using m by auto
    have c1: "confined X M ?st1" by (rule confined_set_vals[OF c])
    from IHnot[OF c1 sx sm r1 e1 m1] show ?thesis using sx by auto
  qed
  have B: "confined X M st' \<and> (\<forall>x \<in> X. vals st' x = vals st x)"
    if c: "confined X M st" and sx: "s \<notin> X" and sm: "s \<notin> M"
      and r: "notify (Suc n) st s i = Some st'"
      and e: "emitted st' = emitted st @ tr" and m: "set tr \<inter> M = {}"
    for st :: "'a state" and s i st' tr
  proof (cases "i < length (subs st s)")
    case False
    thus ?thesis using r c by simp
  next
    case True
    then obtain st1 where c1: "call_sub n st s (subs st s ! i) = Some st1"
      and r1: "notify n st1 s (Suc i) = Some st'"
      using r by (auto split: option.splits)
    obtain tr1 where e1: "emitted st1 = emitted st @ tr1"
      using emitted_grows[of n, THEN conjunct2, THEN conjunct2, rule_format, OF c1] by blast
    obtain tr2 where e2: "emitted st' = emitted st1 @ tr2"
      using emitted_grows[of n, THEN conjunct2, THEN conjunct1, rule_format, OF r1] by blast
    have "tr = tr1 @ tr2" using e e1 e2 by simp
    hence m1: "set tr1 \<inter> M = {}" and m2: "set tr2 \<inter> M = {}" using m by auto
    have mem: "subs st s ! i \<in> set (subs st s)" using True by simp
    note C = IHcall[OF c sx sm mem c1 e1 m1]
    note N = IHnot[OF C[THEN conjunct1] sx sm r1 e2 m2]
    show ?thesis using C N by simp
  qed
  have C: "confined X M st' \<and> (\<forall>x \<in> X. vals st' x = vals st x)"
    if c: "confined X M st" and sx: "s \<notin> X" and sm: "s \<notin> M" and mem: "fn \<in> set (subs st s)"
      and r: "call_sub (Suc n) st s fn = Some st'"
      and e: "emitted st' = emitted st @ tr" and m: "set tr \<inter> M = {}"
    for st :: "'a state" and s fn st' tr
  proof -
    have nt: "t \<notin> X" if "target fn = Some t" for t
      using c mem sx sm that unfolding confined_def by blast
    show ?thesis
    proof (cases fn)
      case (SObs j)
      hence "st' = st\<lparr>olog := olog st @ [(j, vals st s)]\<rparr>" using r by simp
      thus ?thesis using c by (simp add: confined_def)
    next
      case (SMap g d)
      let ?st1 = "snd (call_ufun g st (vals st s))"
      have r1: "set_sig n ?st1 d (fst (call_ufun g st (vals st s))) = Some st'"
        using r SMap by (simp add: split_def Let_def)
      have c1: "confined X M ?st1" by (rule confined_call_ufun[OF c])
      have e1: "emitted st' = emitted ?st1 @ tr" using e by (simp add: call_ufun_def)
      have "d \<notin> X" using nt SMap by simp
      from IHset[OF c1 this r1 e1 m] show ?thesis by (simp add: call_ufun_def)
    next
      case (SBind g d)
      let ?st1 = "snd (apply_efun g st (vals st s))"
      let ?ne = "fst (apply_efun g st (vals st s))"
      obtain st2 where r1: "set_sig n ?st1 d (vals ?st1 ?ne) = Some st2"
        and eq: "st' = subscribe st2 ?ne (SInner d)"
        using r SBind by (auto simp add: split_def Let_def split: option.splits)
      note c1 = confined_apply_efun[OF c, of g "vals st s"]
      have e1: "emitted st2 = emitted ?st1 @ tr"
        using e by (simp add: eq subscribe_def emitted_apply_efun)
      have dx: "d \<notin> X" using nt SBind by simp
      note S = IHset[OF c1[THEN conjunct1] dx r1 e1 m]
      have "confined X M st'" unfolding eq
        by (rule confined_subscribe[OF S[THEN conjunct1]]) (simp add: dx)
      thus ?thesis using S c1 by (simp add: eq subscribe_def)
    next
      case (SInner d)
      have r1: "set_sig n st d (vals st s) = Some st'" using r SInner by simp
      have "d \<notin> X" using nt SInner by simp
      from IHset[OF c this r1 e m] show ?thesis .
    qed
  qed
  show ?case using A B C by blast
qed
section \<open>Subscribers stay, and a notification calls each of them\<close>

lemma grows_refl: "grows st st"
  by (simp add: grows_def)

lemma grows_trans: "grows a b \<Longrightarrow> grows b c \<Longrightarrow> grows a c"
  unfolding grows_def
proof (intro conjI allI impI)
  assume h: "nxt a \<le> nxt b \<and> (\<exists>lg. olog b = olog a @ lg) \<and>
             (\<forall>s. s < nxt a \<longrightarrow> (\<exists>ext. subs b s = subs a s @ ext))"
    and k: "nxt b \<le> nxt c \<and> (\<exists>lg. olog c = olog b @ lg) \<and>
             (\<forall>s. s < nxt b \<longrightarrow> (\<exists>ext. subs c s = subs b s @ ext))"
  show "nxt a \<le> nxt c" using h k by simp
  show "\<exists>lg. olog c = olog a @ lg" using h k by auto
  fix s
  assume s: "s < nxt a"
  then obtain e1 where e1: "subs b s = subs a s @ e1" using h by blast
  from s h have "s < nxt b" by simp
  then obtain e2 where "subs c s = subs b s @ e2" using k by blast
  thus "\<exists>ext. subs c s = subs a s @ ext" using e1 by simp
qed

lemma grows_call_ufun: "grows st (snd (call_ufun g st a))"
  by (simp add: grows_def call_ufun_def)

lemma grows_signal: "grows st (snd (signal st v))"
  by (simp add: grows_def signal_def)

lemma grows_subscribe: "grows st (subscribe st s fn)"
  by (simp add: grows_def subscribe_def)

lemma grows_set_vals: "grows st (st\<lparr>vals := w, emitted := e\<rparr>)"
  by (simp add: grows_def)

lemma grows_map_sig: "grows st (snd (map_sig st c g))"
proof -
  let ?st1 = "snd (call_ufun g st (vals st c))"
  let ?b = "fst (call_ufun g st (vals st c))"
  have "grows st (subscribe (snd (signal ?st1 ?b)) c (SMap g (fst (signal ?st1 ?b))))"
    by (rule grows_trans[OF grows_trans[OF grows_call_ufun grows_signal] grows_subscribe])
  thus ?thesis by (simp add: map_sig_def split_def Let_def)
qed

lemma grows_apply_efun: "grows st (snd (apply_efun f st a))"
proof (cases f)
  case (EFresh g)
  have "grows st (snd (signal (snd (call_ufun g st a)) (fst (call_ufun g st a))))"
    by (rule grows_trans[OF grows_call_ufun grows_signal])
  thus ?thesis by (simp add: EFresh effect_def split_def Let_def)
next
  case (EConst h)
  thus ?thesis by (simp add: grows_refl)
next
  case (EMapOf c g)
  thus ?thesis by (simp add: grows_map_sig)
qed

lemma grows_run:
  "(\<forall>st s v st'. set_sig n st s v = Some st' \<longrightarrow> grows (st :: 'a state) st') \<and>
   (\<forall>st s i st'. notify n st s i = Some st' \<longrightarrow> grows (st :: 'a state) st') \<and>
   (\<forall>st s fn st'. call_sub n st s fn = Some st' \<longrightarrow> grows (st :: 'a state) st')"
proof (induction n)
  case 0
  show ?case by simp
next
  case (Suc n)
  note IHset = Suc.IH[THEN conjunct1, rule_format]
  note IHnot = Suc.IH[THEN conjunct2, THEN conjunct1, rule_format]
  note IHcall = Suc.IH[THEN conjunct2, THEN conjunct2, rule_format]
  have A: "grows st st'"
    if r: "set_sig (Suc n) st s v = Some st'" for st :: "'a state" and s v st'
  proof (cases "strict_neq v (vals st s)")
    case False
    thus ?thesis using r by (simp add: grows_refl)
  next
    case True
    hence "notify n (st\<lparr>vals := (vals st)(s := v), emitted := emitted st @ [s]\<rparr>) s 0 = Some st'"
      using r by simp
    from grows_trans[OF grows_set_vals IHnot[OF this]] show ?thesis .
  qed
  have B: "grows st st'"
    if r: "notify (Suc n) st s i = Some st'" for st :: "'a state" and s i st'
  proof (cases "i < length (subs st s)")
    case False
    thus ?thesis using r by (simp add: grows_refl)
  next
    case True
    then obtain st1 where c1: "call_sub n st s (subs st s ! i) = Some st1"
      and r1: "notify n st1 s (Suc i) = Some st'"
      using r by (auto split: option.splits)
    from grows_trans[OF IHcall[OF c1] IHnot[OF r1]] show ?thesis .
  qed
  have C: "grows st st'"
    if r: "call_sub (Suc n) st s fn = Some st'" for st :: "'a state" and s fn st'
  proof (cases fn)
    case (SObs j)
    thus ?thesis using r by (auto simp add: grows_def)
  next
    case (SMap g e)
    hence "set_sig n (snd (call_ufun g st (vals st s))) e (fst (call_ufun g st (vals st s))) = Some st'"
      using r by (simp add: split_def Let_def)
    from grows_trans[OF grows_call_ufun IHset[OF this]] show ?thesis .
  next
    case (SBind g e)
    let ?st1 = "snd (apply_efun g st (vals st s))"
    let ?ne = "fst (apply_efun g st (vals st s))"
    obtain st2 where r1: "set_sig n ?st1 e (vals ?st1 ?ne) = Some st2"
      and eq: "st' = subscribe st2 ?ne (SInner e)"
      using r SBind by (auto simp add: split_def Let_def split: option.splits)
    from grows_trans[OF grows_trans[OF grows_apply_efun IHset[OF r1]] grows_subscribe]
    show ?thesis by (simp add: eq)
  next
    case (SInner e)
    hence "set_sig n st e (vals st s) = Some st'" using r by simp
    from IHset[OF this] show ?thesis .
  qed
  show ?case using A B C by blast
qed

lemma set_many_grows: "set_many n st ups = Some st' \<Longrightarrow> grows st st'"
proof (induction ups arbitrary: st)
  case Nil
  thus ?case by (simp add: grows_refl)
next
  case (Cons u ups)
  obtain s v where u: "u = (s, v)" by (cases u)
  from Cons.prems obtain st1 where s1: "set_sig n st s v = Some st1"
    and r: "set_many n st1 ups = Some st'"
    by (auto simp add: u split: option.splits)
  from grows_trans[OF grows_run[of n, THEN conjunct1, rule_format, OF s1] Cons.IH[OF r]]
  show ?case .
qed

lemma grows_nth:
  assumes g: "grows st st'" and s: "s < nxt st" and j: "j < length (subs st s)"
  shows "j < length (subs st' s) \<and> subs st' s ! j = subs st s ! j"
proof -
  from g s obtain ext where "subs st' s = subs st s @ ext" unfolding grows_def by blast
  thus ?thesis using j by (simp add: nth_append)
qed

lemma grows_mem:
  assumes g: "grows st st'" and s: "s < nxt st" and m: "fn \<in> set (subs st s)"
  shows "fn \<in> set (subs st' s)"
proof -
  from g s obtain ext where "subs st' s = subs st s @ ext" unfolding grows_def by blast
  thus ?thesis using m by simp
qed

text \<open>
  A notification that comes to an end has called every subscriber the container had
  when it began: the \<open>j\<close>-th one in some store \<open>st1\<close> reached from the first.
\<close>

lemma notify_calls:
  "notify n st s i = Some st' \<Longrightarrow> s < nxt st \<Longrightarrow> i \<le> j \<Longrightarrow> j < length (subs st s) \<Longrightarrow>
   \<exists>st1 st2 k. grows st st1 \<and> call_sub k st1 s (subs st s ! j) = Some st2 \<and> grows st2 st'"
proof (induction n arbitrary: st i)
  case 0
  thus ?case by simp
next
  case (Suc n)
  have il: "i < length (subs st s)" using Suc.prems(3,4) by simp
  then obtain sta where c1: "call_sub n st s (subs st s ! i) = Some sta"
    and r1: "notify n sta s (Suc i) = Some st'"
    using Suc.prems(1) by (auto split: option.splits)
  note g1 = grows_run[of n, THEN conjunct2, THEN conjunct2, rule_format, OF c1]
  note g2 = grows_run[of n, THEN conjunct2, THEN conjunct1, rule_format, OF r1]
  show ?case
  proof (cases "i = j")
    case True
    thus ?thesis using c1 g2 grows_refl by blast
  next
    case False
    hence ij: "Suc i \<le> j" using Suc.prems(3) by simp
    note N = grows_nth[OF g1 Suc.prems(2,4)]
    have s1: "s < nxt sta" using g1 Suc.prems(2) by (simp add: grows_def)
    from Suc.IH[OF r1 s1 ij N[THEN conjunct1]]
    obtain st1 st2 k where a: "grows sta st1"
      and b: "call_sub k st1 s (subs sta s ! j) = Some st2" and c: "grows st2 st'"
      by blast
    from grows_trans[OF g1 a] b c N show ?thesis by auto
  qed
qed


lemma existing_effect_mono: "existing_effect f b \<Longrightarrow> b \<le> b' \<Longrightarrow> existing_effect f b'"
  by (cases f) (auto intro: less_le_trans)

lemma apply_efun_existing:
  "existing_effect f (nxt st) \<Longrightarrow> fst (apply_efun f st a) < nxt (snd (apply_efun f st a))"
  by (cases f) (simp_all add: effect_def signal_def map_sig_def call_ufun_def subscribe_def split_def)

text \<open>
  When a source that carries the callback of a \<^verbatim>\<open>bind\<close> has notified, the callback has
  run in some store \<open>sta\<close> reached on the way: the setter of the result has been called
  with the value of the effect that \<open>f\<close> returned there, and that effect carries the
  subscriber that pushes its value into the result.
\<close>

lemma notify_runs_bind:
  assumes r: "notify n st m 0 = Some st'" and s: "m < nxt st"
    and mem: "SBind f r \<in> set (subs st m)" and ex: "existing_effect f (nxt st)"
  shows "\<exists>sta stb k. grows st sta \<and>
           set_sig k (snd (apply_efun f sta (vals sta m))) r
             (vals (snd (apply_efun f sta (vals sta m))) (fst (apply_efun f sta (vals sta m))))
             = Some stb \<and>
           grows stb st' \<and>
           fst (apply_efun f sta (vals sta m)) < nxt st' \<and>
           SInner r \<in> set (subs st' (fst (apply_efun f sta (vals sta m))))"
proof -
  from mem obtain j where j: "j < length (subs st m)" and e: "subs st m ! j = SBind f r"
    by (auto simp add: in_set_conv_nth)
  from notify_calls[OF r s _ j] e
  obtain st1 st2 k where a: "grows st st1"
    and b: "call_sub k st1 m (SBind f r) = Some st2" and c: "grows st2 st'"
    by auto
  let ?sta = "snd (apply_efun f st1 (vals st1 m))"
  let ?ne = "fst (apply_efun f st1 (vals st1 m))"
  from b obtain k' where k: "k = Suc k'" by (cases k) auto
  obtain stb where r1: "set_sig k' ?sta r (vals ?sta ?ne) = Some stb"
    and eq: "st2 = subscribe stb ?ne (SInner r)"
    using b k by (auto simp add: split_def Let_def split: option.splits)
  have "existing_effect f (nxt st1)"
    using existing_effect_mono[OF ex] a by (simp add: grows_def)
  hence "?ne < nxt ?sta" by (rule apply_efun_existing)
  moreover have "nxt ?sta \<le> nxt stb"
    using grows_run[of k', THEN conjunct1, rule_format, OF r1] by (simp add: grows_def)
  ultimately have n2: "?ne < nxt st2" by (simp add: eq subscribe_def)
  have "SInner r \<in> set (subs st2 ?ne)" by (simp add: eq subscribe_def)
  note in3 = grows_mem[OF c n2 this]
  have n3: "?ne < nxt st'" using n2 c by (simp add: grows_def)
  have "grows stb st2" by (simp add: eq grows_subscribe)
  from a r1 grows_trans[OF this c] n3 in3 show ?thesis by blast
qed



section \<open>The setter\<close>






section \<open>Bind and its seed\<close>

lemma wf_state_call_ufun: "wf_state st \<Longrightarrow> wf_state (snd (call_ufun g st a))"
  by (simp add: wf_state_def call_ufun_def)

lemma wf_state_signal: "wf_state st \<Longrightarrow> wf_state (snd (signal st v))"
  by (fastforce simp add: wf_state_def signal_def)

lemma wf_state_subscribe:
  "wf_state st \<Longrightarrow> (\<forall>t. target fn = Some t \<longrightarrow> t < nxt st) \<Longrightarrow> wf_state (subscribe st s fn)"
  by (auto simp add: wf_state_def subscribe_def)

lemma wf_state_apply_efun: "wf_state st \<Longrightarrow> wf_state (snd (apply_efun g st a))"
proof (cases g)
  case (EFresh g')
  assume "wf_state st"
  from wf_state_signal[OF wf_state_call_ufun[OF this]] show ?thesis
    by (simp add: EFresh effect_def split_def Let_def)
next
  case (EConst h)
  assume "wf_state st"
  thus ?thesis by (simp add: EConst)
next
  case (EMapOf c g')
  assume wf: "wf_state st"
  let ?st1 = "snd (call_ufun (g' a) st (vals st c))"
  let ?b = "fst (call_ufun (g' a) st (vals st c))"
  have w2: "wf_state (snd (signal ?st1 ?b))" by (rule wf_state_signal[OF wf_state_call_ufun[OF wf]])
  have "wf_state (subscribe (snd (signal ?st1 ?b)) c (SMap (g' a) (fst (signal ?st1 ?b))))"
    by (rule wf_state_subscribe[OF w2]) (simp add: signal_def)
  thus ?thesis by (simp add: EMapOf map_sig_def split_def Let_def)
qed

lemma no_target_at_nxt:
  "wf_state st \<Longrightarrow> fn \<in> set (subs st s) \<Longrightarrow> target fn \<noteq> Some (nxt st)"
  unfolding wf_state_def by fastforce

lemma confined_fresh:
  assumes wf: "wf_state st" and cf: "confined X M st"
  shows "confined (insert (nxt st) X) M (snd (signal st v))"
proof -
  have old: "s \<in> X \<union> M \<and> fn \<noteq> SInner t"
    if "fn \<in> set (subs st s)" "target fn = Some t" "t \<in> insert (nxt st) X" for s fn t
    using that no_target_at_nxt[OF wf that(1)] cf unfolding confined_def by blast
  have "s \<in> insert (nxt st) X \<union> M \<and> fn \<noteq> SInner t"
    if "fn \<in> set (subs (snd (signal st v)) s)" "target fn = Some t" "t \<in> insert (nxt st) X" for s fn t
  proof (cases "s = nxt st")
    case True
    thus ?thesis using that by (simp add: signal_def)
  next
    case False
    hence "fn \<in> set (subs st s)" using that(1) by (simp add: signal_def)
    from old[OF this that(2,3)] show ?thesis by simp
  qed
  moreover have "\<forall>x \<in> insert (nxt st) X. x < nxt (snd (signal st v))"
    using cf by (auto simp add: confined_def signal_def)
  ultimately show ?thesis unfolding confined_def by blast
qed

lemma bind_unfold:
  "bind st m f =
     (nxt (snd (apply_efun f st (vals st m))),
      subscribe (snd (signal (snd (apply_efun f st (vals st m)))
                       (vals (snd (apply_efun f st (vals st m))) (fst (apply_efun f st (vals st m))))))
                m (SBind f (nxt (snd (apply_efun f st (vals st m))))))"
  by (simp add: bind_def effect_def split_def Let_def signal_def)

lemma confined_after_bind:
  assumes wf: "wf_state st"
  shows "confined {fst (bind st m f)} {m} (snd (bind st m f))"
proof -
  let ?st1 = "snd (apply_efun f st (vals st m))"
  let ?v = "vals ?st1 (fst (apply_efun f st (vals st m)))"
  have w1: "wf_state ?st1" by (rule wf_state_apply_efun[OF wf])
  have "confined {} {m} ?st1" by (simp add: confined_def)
  from confined_fresh[OF w1 this, of ?v]
  have "confined {nxt ?st1} {m} (snd (signal ?st1 ?v))" by simp
  from confined_subscribe[OF this, of "SBind f (nxt ?st1)" m]
  show ?thesis by (simp add: bind_unfold)
qed

lemma no_inner_after_bind:
  assumes wf: "wf_state st"
  shows "SInner (fst (bind st m f)) \<notin> set (subs (snd (bind st m f)) s)"
proof -
  let ?st1 = "snd (apply_efun f st (vals st m))"
  have w1: "wf_state ?st1" by (rule wf_state_apply_efun[OF wf])
  have "SInner (nxt ?st1) \<notin> set (subs ?st1 s')" for s'
    using no_target_at_nxt[OF w1, of "SInner (nxt ?st1)" s'] by auto
  thus ?thesis by (auto simp add: bind_unfold subscribe_def signal_def)
qed

lemma set_many_emitted_grows:
  "set_many n st ups = Some st' \<Longrightarrow> \<exists>tr. emitted st' = emitted st @ tr"
proof (induction ups arbitrary: st)
  case Nil
  thus ?case by simp
next
  case (Cons u ups)
  obtain s v where u: "u = (s, v)" by (cases u)
  from Cons.prems obtain st1 where s1: "set_sig n st s v = Some st1"
    and r: "set_many n st1 ups = Some st'"
    by (auto simp add: u split: option.splits)
  from emitted_grows[of n, THEN conjunct1, rule_format, OF s1] Cons.IH[OF r]
  show ?case by auto
qed

lemma set_many_frame:
  "confined X M st \<Longrightarrow> \<forall>(s, v) \<in> set ups. s \<notin> X \<Longrightarrow> set_many n st ups = Some st' \<Longrightarrow>
   emitted st' = emitted st @ tr \<Longrightarrow> set tr \<inter> M = {} \<Longrightarrow>
   confined X M st' \<and> (\<forall>x \<in> X. vals st' x = vals st x)"
proof (induction ups arbitrary: st tr)
  case Nil
  thus ?case by simp
next
  case (Cons u ups)
  obtain s v where u: "u = (s, v)" by (cases u)
  from Cons.prems(3) obtain st1 where s1: "set_sig n st s v = Some st1"
    and r: "set_many n st1 ups = Some st'"
    by (auto simp add: u split: option.splits)
  obtain tr1 where e1: "emitted st1 = emitted st @ tr1"
    using emitted_grows[of n, THEN conjunct1, rule_format, OF s1] by blast
  obtain tr2 where e2: "emitted st' = emitted st1 @ tr2"
    using set_many_emitted_grows[OF r] by blast
  have "tr = tr1 @ tr2" using Cons.prems(4) e1 e2 by simp
  hence m1: "set tr1 \<inter> M = {}" and m2: "set tr2 \<inter> M = {}" using Cons.prems(5) by auto
  have sx: "s \<notin> X" using Cons.prems(2) u by simp
  note S = frame[of X M n, THEN conjunct1, rule_format, OF Cons.prems(1) sx s1 e1 m1]
  have "\<forall>(s, v) \<in> set ups. s \<notin> X" using Cons.prems(2) by simp
  from Cons.IH[OF S[THEN conjunct1] this r e2 m2] S show ?case by simp
qed

lemma grows_bind: "grows st (snd (bind st m f))"
proof -
  let ?st1 = "snd (apply_efun f st (vals st m))"
  let ?v = "vals ?st1 (fst (apply_efun f st (vals st m)))"
  have "grows st (subscribe (snd (signal ?st1 ?v)) m (SBind f (nxt ?st1)))"
    by (rule grows_trans[OF grows_trans[OF grows_apply_efun grows_signal] grows_subscribe])
  thus ?thesis by (simp add: bind_unfold)
qed

text \<open>At the instant of the call the result of \<^verbatim>\<open>bind\<close> holds the value of the inner effect.\<close>

lemma bind_seeded:
  "vals (snd (bind st m f)) (fst (bind st m f))
   = vals (snd (apply_efun f st (vals st m))) (seed_inner st m f)"
  by (simp add: bind_unfold seed_inner_def subscribe_def signal_def)

text \<open>
  C10 (the seed of a bind is read, not subscribed). \<^verbatim>\<open>m.bind(f)\<close> puts its callback
  on \<open>m\<close> and seeds the result with the value that the inner effect \<^verbatim>\<open>f(m.value())\<close> has
  at that instant. Right after it no container carries a subscriber that pushes an
  inner effect's value into the result. For any later updates, through the setter of
  any container other than the result and each coming to an end (so for every change
  of the seeding inner effect, made on it or reaching it from another container): if
  \<open>m\<close> does not emit during them, there still is no such subscriber and the result keeps
  the value it was seeded with. And when, after any updates, \<open>m\<close> is set to a new value
  and its notification comes to an end, the callback has run: the setter of the result
  has been called with the value of the effect that \<open>f\<close> returned for the value of \<open>m\<close>,
  and that effect carries a subscriber that pushes its value into the result (for a
  function \<open>f\<close> that returns existing effects).
\<close>

theorem bind_ignores_seed_inner:
  assumes "wf_state st"
  shows "SBind f (fst (bind st m f)) \<in> set (subs (snd (bind st m f)) m) \<and>
         vals (snd (bind st m f)) (fst (bind st m f))
           = vals (snd (apply_efun f st (vals st m))) (seed_inner st m f) \<and>
         (\<forall>s. SInner (fst (bind st m f)) \<notin> set (subs (snd (bind st m f)) s)) \<and>
         ((\<forall>(s, v) \<in> set ups. s \<noteq> fst (bind st m f)) \<longrightarrow>
          set_many n (snd (bind st m f)) ups = Some st' \<longrightarrow>
          m \<notin> set (drop (length (emitted (snd (bind st m f)))) (emitted st')) \<longrightarrow>
            (\<forall>s. SInner (fst (bind st m f)) \<notin> set (subs st' s)) \<and>
            vals st' (fst (bind st m f)) = vals (snd (bind st m f)) (fst (bind st m f))) \<and>
         (m < nxt st \<longrightarrow> existing_effect f (nxt st) \<longrightarrow>
          set_many n (snd (bind st m f)) ups = Some st' \<longrightarrow>
          strict_neq w (vals st' m) \<longrightarrow> set_sig k st' m w = Some st2 \<longrightarrow>
            (\<exists>sta stb j. grows st' sta \<and>
               set_sig j (snd (apply_efun f sta (vals sta m))) (fst (bind st m f))
                 (vals (snd (apply_efun f sta (vals sta m))) (fst (apply_efun f sta (vals sta m))))
                 = Some stb \<and>
               grows stb st2 \<and>
               fst (apply_efun f sta (vals sta m)) < nxt st2 \<and>
               SInner (fst (bind st m f)) \<in> set (subs st2 (fst (apply_efun f sta (vals sta m))))))"
proof (intro conjI impI)
  let ?r = "fst (bind st m f)"
  let ?st1 = "snd (bind st m f)"
  show mem: "SBind f ?r \<in> set (subs ?st1 m)" by (simp add: bind_unfold subscribe_def)
  show "vals ?st1 ?r = vals (snd (apply_efun f st (vals st m))) (seed_inner st m f)"
    by (rule bind_seeded)
  show "\<forall>s. SInner ?r \<notin> set (subs ?st1 s)" using no_inner_after_bind[OF assms] by blast
  {
    assume off: "\<forall>(s, v) \<in> set ups. s \<noteq> ?r"
      and run: "set_many n ?st1 ups = Some st'"
      and quiet: "m \<notin> set (drop (length (emitted ?st1)) (emitted st'))"
    obtain tr where e: "emitted st' = emitted ?st1 @ tr"
      using set_many_emitted_grows[OF run] by blast
    hence q: "set tr \<inter> {m} = {}" using quiet by simp
    have "\<forall>(s, v) \<in> set ups. s \<notin> {?r}" using off by auto
    note F = set_many_frame[OF confined_after_bind[OF assms] this run e q]
    show "\<forall>s. SInner ?r \<notin> set (subs st' s)"
      using F[THEN conjunct1] unfolding confined_def by fastforce
    show "vals st' ?r = vals ?st1 ?r" using F by simp
  }
  {
    assume mn: "m < nxt st" and ex: "existing_effect f (nxt st)"
      and run: "set_many n ?st1 ups = Some st'"
      and d: "strict_neq w (vals st' m)" and r: "set_sig k st' m w = Some st2"
    have g: "grows st st'" by (rule grows_trans[OF grows_bind set_many_grows[OF run]])
    have m1: "m < nxt ?st1" using grows_bind[of st m f] mn by (simp add: grows_def)
    have mem': "SBind f ?r \<in> set (subs st' m)"
      by (rule grows_mem[OF set_many_grows[OF run] m1 mem])
    let ?st0 = "st'\<lparr>vals := (vals st')(m := w), emitted := emitted st' @ [m]\<rparr>"
    from r obtain k' where k: "k = Suc k'" by (cases k) auto
    have r1: "notify k' ?st0 m 0 = Some st2" using r d k by simp
    have a: "m < nxt ?st0" using g mn by (simp add: grows_def)
    have b: "SBind f ?r \<in> set (subs ?st0 m)" using mem' by simp
    have "nxt st \<le> nxt ?st0" using g by (simp add: grows_def)
    from notify_runs_bind[OF r1 a b existing_effect_mono[OF ex this]]
    obtain sta stb j where g1: "grows ?st0 sta"
      and r2: "set_sig j (snd (apply_efun f sta (vals sta m))) ?r
                 (vals (snd (apply_efun f sta (vals sta m))) (fst (apply_efun f sta (vals sta m))))
               = Some stb"
      and g2: "grows stb st2"
      and lt: "fst (apply_efun f sta (vals sta m)) < nxt st2"
      and sub: "SInner ?r \<in> set (subs st2 (fst (apply_efun f sta (vals sta m))))"
      by blast
    from grows_trans[OF grows_set_vals g1] r2 g2 lt sub
    show "\<exists>sta stb j. grows st' sta \<and>
               set_sig j (snd (apply_efun f sta (vals sta m))) ?r
                 (vals (snd (apply_efun f sta (vals sta m))) (fst (apply_efun f sta (vals sta m))))
                 = Some stb \<and>
               grows stb st2 \<and>
               fst (apply_efun f sta (vals sta m)) < nxt st2 \<and>
               SInner ?r \<in> set (subs st2 (fst (apply_efun f sta (vals sta m))))"
      by blast
  }
qed

theorem bind_ignores_seed_inner_witness:
  "wf_state shared_world \<and>
   fst (bind shared_world 1 (EMapOf 0 (\<lambda>a rd fr x. x))) = 3 \<and>
   seed_inner shared_world 1 (EMapOf 0 (\<lambda>a rd fr x. x)) = 2 \<and>
   SBind (EMapOf 0 (\<lambda>a rd fr x. x)) 3
     \<in> set (subs (snd (bind shared_world 1 (EMapOf 0 (\<lambda>a rd fr x. x)))) 1) \<and>
   vals (snd (bind shared_world 1 (EMapOf 0 (\<lambda>a rd fr x. x)))) 3 = JPrim 1 \<and>
   1 < nxt shared_world \<and> existing_effect (EMapOf 0 (\<lambda>a rd fr x. x) :: nat efun) (nxt shared_world) \<and>
   (\<exists>st'. set_many 9 (snd (bind shared_world 1 (EMapOf 0 (\<lambda>a rd fr x. x))))
              [(2, JPrim 6), (0, JPrim 5)] = Some st' \<and>
          1 \<notin> set (drop (length (emitted (snd (bind shared_world 1 (EMapOf 0 (\<lambda>a rd fr x. x))))))
                     (emitted st')) \<and>
          vals st' 0 = JPrim 5 \<and> vals st' 2 = JPrim 5 \<and> vals st' 3 = JPrim 1 \<and>
          SInner 3 \<notin> set (subs st' 2) \<and>
          strict_neq (JPrim 7) (vals st' 1) \<and>
          (\<exists>st2. set_sig 9 st' 1 (JPrim 7) = Some st2 \<and>
             (\<exists>e. e < nxt st2 \<and> SInner 3 \<in> set (subs st2 e)) \<and>
             vals st2 3 = JPrim 5 \<and>
             map_option (\<lambda>st3. vals st3 3) (set_sig 9 st2 0 (JPrim 8)) = Some (JPrim 8)))"
proof -
  let ?f = "EMapOf 0 (\<lambda>a rd fr x. x) :: nat efun"
  let ?B = "snd (bind shared_world 1 ?f)"
  note defs = shared_world_def seed_inner_def bind_def pureEffect_def effect_def signal_def
    subscribe_def init_state_def map_sig_def call_ufun_def
  note T = bind_ignores_seed_inner[of shared_world ?f 1 "[(2, JPrim 6), (0, JPrim 5)]" 9 _ "JPrim 7" 9]
  have w: "wf_state shared_world" by (simp add: wf_state_def defs)
  have r: "fst (bind shared_world 1 ?f) = 3" by (simp add: defs)
  have sd: "seed_inner shared_world 1 ?f = 2" by (simp add: defs)
  have v0: "vals ?B 3 = JPrim 1" by (simp add: defs)
  have mn: "1 < nxt shared_world" by (simp add: defs)
  have ex: "existing_effect ?f (nxt shared_world)" by simp
  have "set_many 9 ?B [(2, JPrim 6), (0, JPrim 5)] \<noteq> None"
    by (simp add: numeral_eq_Suc defs)
  then obtain st' where run: "set_many 9 ?B [(2, JPrim 6), (0, JPrim 5)] = Some st'" by auto
  have q: "1 \<notin> set (drop (length (emitted ?B)) (emitted st'))"
    using run by (auto simp add: numeral_eq_Suc defs)
  have vs: "vals st' 0 = JPrim 5 \<and> vals st' 2 = JPrim 5"
    using run by (auto simp add: numeral_eq_Suc defs)
  have d: "strict_neq (JPrim 7) (vals st' 1)"
    using run by (auto simp add: numeral_eq_Suc defs)
  have "set_sig 9 st' 1 (JPrim 7) \<noteq> None"
    using run by (auto simp add: numeral_eq_Suc defs)
  then obtain st2 where r2: "set_sig 9 st' 1 (JPrim 7) = Some st2" by auto
  have v2: "vals st2 3 = JPrim 5"
    using run r2 by (auto simp add: numeral_eq_Suc defs)
  have v3: "map_option (\<lambda>st3. vals st3 3) (set_sig 9 st2 0 (JPrim 8)) = Some (JPrim 8)"
    using run r2 by (auto simp add: numeral_eq_Suc defs)
  have off: "\<forall>(s, v) \<in> set [(2 :: nat, JPrim 6 :: nat jsval), (0, JPrim 5)]. s \<noteq> fst (bind shared_world 1 ?f)"
    using r by simp
  note T1 = T[OF w, THEN conjunct1]
  note T3 = T[OF w, THEN conjunct2, THEN conjunct2, THEN conjunct2, THEN conjunct1,
      THEN mp, THEN mp, THEN mp, OF off run q]
  note T4 = T[OF w, THEN conjunct2, THEN conjunct2, THEN conjunct2, THEN conjunct2,
      THEN mp, THEN mp, THEN mp, THEN mp, THEN mp, OF mn ex run d r2]
  have m1: "SBind ?f 3 \<in> set (subs ?B 1)" using T1 r by simp
  have k3: "vals st' 3 = JPrim 1" using T3 r v0 by simp
  have n3: "SInner 3 \<notin> set (subs st' 2)" using T3 r by simp
  have e4: "\<exists>e. e < nxt st2 \<and> SInner 3 \<in> set (subs st2 e)" using T4 r by auto
  from w r sd m1 v0 mn ex run q vs k3 n3 d r2 e4 v2 v3 show ?thesis by blast
qed

text \<open>
  C5 (left identity), evaluated where it fails. With \<^verbatim>\<open>shared = effect(1)\<close> and
  \<^verbatim>\<open>f = _ => shared\<close>, build \<^verbatim>\<open>lhs = pureEffect(0).bind(f)\<close> and then run
  \<^verbatim>\<open>shared._set(2)\<close>. Now \<^verbatim>\<open>lhs.value()\<close> is still 1 while \<^verbatim>\<open>f(0).value()\<close> is 2: the law
  holds when \<^verbatim>\<open>bind\<close> is called and not at the instants after it.
\<close>
theorem left_identity_fails_later:
  "map_option (\<lambda>st. (vals st (fst (bind shared_world 1 (EConst (\<lambda>_. 0)))),
                      vals st (fst (apply_efun (EConst (\<lambda>_. 0)) st (JPrim 0)))))
      (set_sig 2 (snd (bind shared_world 1 (EConst (\<lambda>_. 0)))) 0 (JPrim 2))
   = Some (JPrim 1, JPrim 2)"
  by (simp add: numeral_eq_Suc shared_world_def bind_def pureEffect_def effect_def signal_def
      subscribe_def init_state_def)

text \<open>
  Well-formedness is no restriction on the stores the library builds: the empty store is
  well formed, and \<^verbatim>\<open>signal\<close>, \<^verbatim>\<open>map\<close>, \<^verbatim>\<open>bind\<close> and every update that comes to an end
  keep it.
\<close>

lemma wf_state_init: "wf_state init_state"
  by (simp add: wf_state_def init_state_def)

lemma nxt_apply_efun: "nxt st \<le> nxt (snd (apply_efun g st a))"
  by (cases g) (simp_all add: call_ufun_def effect_def signal_def map_sig_def subscribe_def split_def)

lemma wf_state_bind: "wf_state st \<Longrightarrow> wf_state (snd (bind st m f))"
proof -
  assume wf: "wf_state st"
  let ?st1 = "snd (apply_efun f st (vals st m))"
  let ?v = "vals ?st1 (fst (apply_efun f st (vals st m)))"
  have w2: "wf_state (snd (signal ?st1 ?v))"
    by (rule wf_state_signal[OF wf_state_apply_efun[OF wf]])
  have "wf_state (subscribe (snd (signal ?st1 ?v)) m (SBind f (nxt ?st1)))"
    by (rule wf_state_subscribe[OF w2]) (simp add: signal_def)
  thus ?thesis by (simp add: bind_unfold)
qed

lemma wf_state_kept:
  "(\<forall>st s v st'. wf_state st \<longrightarrow> set_sig n st s v = Some st' \<longrightarrow>
      wf_state (st' :: 'a state) \<and> nxt st \<le> nxt st') \<and>
   (\<forall>st s i st'. wf_state st \<longrightarrow> notify n st s i = Some st' \<longrightarrow>
      wf_state (st' :: 'a state) \<and> nxt st \<le> nxt st') \<and>
   (\<forall>st s fn st'. wf_state st \<longrightarrow> fn \<in> set (subs st s) \<longrightarrow> call_sub n st s fn = Some st' \<longrightarrow>
      wf_state (st' :: 'a state) \<and> nxt st \<le> nxt st')"
proof (induction n)
  case 0
  show ?case by simp
next
  case (Suc n)
  note IHset = Suc.IH[THEN conjunct1, rule_format]
  note IHnot = Suc.IH[THEN conjunct2, THEN conjunct1, rule_format]
  note IHcall = Suc.IH[THEN conjunct2, THEN conjunct2, rule_format]
  have A: "wf_state st' \<and> nxt st \<le> nxt st'"
    if w: "wf_state st" and r: "set_sig (Suc n) st s v = Some st'"
    for st :: "'a state" and s v st'
  proof (cases "strict_neq v (vals st s)")
    case False
    thus ?thesis using r w by simp
  next
    case True
    let ?st1 = "st\<lparr>vals := (vals st)(s := v), emitted := emitted st @ [s]\<rparr>"
    have r1: "notify n ?st1 s 0 = Some st'" using r True by simp
    have "wf_state ?st1" using w by (simp add: wf_state_def)
    from IHnot[OF this r1] show ?thesis by simp
  qed
  have B: "wf_state st' \<and> nxt st \<le> nxt st'"
    if w: "wf_state st" and r: "notify (Suc n) st s i = Some st'"
    for st :: "'a state" and s i st'
  proof (cases "i < length (subs st s)")
    case False
    thus ?thesis using r w by simp
  next
    case True
    then obtain st1 where c1: "call_sub n st s (subs st s ! i) = Some st1"
      and r1: "notify n st1 s (Suc i) = Some st'"
      using r by (auto split: option.splits)
    have mem: "subs st s ! i \<in> set (subs st s)" using True by simp
    note C = IHcall[OF w mem c1]
    note N = IHnot[OF C[THEN conjunct1] r1]
    show ?thesis using C N by simp
  qed
  have C: "wf_state st' \<and> nxt st \<le> nxt st'"
    if w: "wf_state st" and mem: "fn \<in> set (subs st s)" and r: "call_sub (Suc n) st s fn = Some st'"
    for st :: "'a state" and s fn st'
  proof (cases fn)
    case (SObs j)
    hence "st' = st\<lparr>olog := olog st @ [(j, vals st s)]\<rparr>" using r by simp
    thus ?thesis using w by (simp add: wf_state_def)
  next
    case (SMap g d)
    let ?st1 = "snd (call_ufun g st (vals st s))"
    have r1: "set_sig n ?st1 d (fst (call_ufun g st (vals st s))) = Some st'"
      using r SMap by (simp add: split_def Let_def)
    from IHset[OF wf_state_call_ufun[OF w] r1] show ?thesis by (simp add: call_ufun_def)
  next
    case (SBind g d)
    let ?st1 = "snd (apply_efun g st (vals st s))"
    let ?ne = "fst (apply_efun g st (vals st s))"
    obtain st2 where r1: "set_sig n ?st1 d (vals ?st1 ?ne) = Some st2"
      and eq: "st' = subscribe st2 ?ne (SInner d)"
      using r SBind by (auto simp add: split_def Let_def split: option.splits)
    note S = IHset[OF wf_state_apply_efun[OF w] r1]
    have "d < nxt st" using w mem SBind unfolding wf_state_def by fastforce
    hence d2: "d < nxt st2" using S nxt_apply_efun[of st g "vals st s"] by simp
    have "wf_state st'" unfolding eq
      by (rule wf_state_subscribe[OF S[THEN conjunct1]]) (simp add: d2)
    thus ?thesis using S nxt_apply_efun[of st g "vals st s"] by (simp add: eq subscribe_def)
  next
    case (SInner d)
    have r1: "set_sig n st d (vals st s) = Some st'" using r SInner by simp
    from IHset[OF w r1] show ?thesis .
  qed
  show ?case using A B C by blast
qed

section \<open>Sequence\<close>

lemma forward_outside_fresh:
  assumes fw: "forward_outside X st"
  shows "forward_outside (insert (nxt st) X) (snd (signal st v))"
proof -
  have mono: "forward_sub X (nxt st) s fn \<Longrightarrow> forward_sub (insert (nxt st) X) (Suc (nxt st)) s fn"
    for s and fn :: "'a sub"
    by (cases fn) auto
  have "list_all (forward_sub (insert (nxt st) X) (Suc (nxt st)) s) (subs st s)" if "s \<notin> X" for s
    using fw mono that unfolding forward_outside_def list_all_iff by blast
  thus ?thesis by (auto simp add: forward_outside_def signal_def)
qed

lemma forward_outside_subscribe_inside:
  "forward_outside X st \<Longrightarrow> s \<in> X \<Longrightarrow> forward_outside X (subscribe st s fn)"
  by (auto simp add: forward_outside_def subscribe_def)

lemma seq_inv_init:
  assumes wf: "wf_state st"
  shows "seq_inv st [] (pureEffect (st\<lparr>nobj := Suc (nobj st)\<rparr>) (JObj (nobj st) []))"
proof -
  let ?st0 = "st\<lparr>nobj := Suc (nobj st)\<rparr>"
  have w0: "wf_state ?st0" using wf by (simp add: wf_state_def)
  have c0: "confined {} {} ?st0" by (simp add: confined_def)
  from confined_fresh[OF w0 c0, of "JObj (nobj st) []"]
  have "confined {nxt st} {} (snd (signal ?st0 (JObj (nobj st) [])))" by simp
  moreover have "forward_outside {nxt st} (snd (signal ?st0 (JObj (nobj st) [])))" if "forward st"
    using forward_outside_fresh[of "{}" ?st0 "JObj (nobj st) []"] that
    by (simp add: forward_def forward_outside_def)
  ultimately have "\<exists>X. nxt st \<in> X \<and> confined X {} (snd (signal ?st0 (JObj (nobj st) []))) \<and>
      (\<forall>x \<in> X. nxt st \<le> x) \<and> (forward st \<longrightarrow> forward_outside X (snd (signal ?st0 (JObj (nobj st) []))))"
    by (intro exI[of _ "{nxt st}"]) simp
  moreover have "wf_state (snd (signal ?st0 (JObj (nobj st) [])))" by (rule wf_state_signal[OF w0])
  ultimately show ?thesis
    by (simp add: seq_inv_def pureEffect_def effect_def) (simp add: signal_def)
qed

lemma seq_inv_step:
  assumes inv: "seq_inv st seen (acc, st1)" and c: "c < nxt st"
  shows "seq_inv st (seen @ [c]) (bind st1 acc (EMapOf c append_val))"
proof -
  let ?f = "EMapOf c append_val"
  let ?st2 = "snd (apply_efun ?f st1 (vals st1 acc))"
  let ?e = "fst (apply_efun ?f st1 (vals st1 acc))"
  let ?st3 = "snd (signal ?st2 (vals ?st2 ?e))"
  let ?r = "nxt ?st2"
  from inv obtain k X where wf1: "wf_state st1" and lo: "nxt st \<le> acc" and hi: "acc < nxt st1"
    and old: "\<forall>c < nxt st. vals st1 c = vals st c"
    and arr: "vals st1 acc = JObj k (map (vals st) seen)"
    and ax: "acc \<in> X" and cf: "confined X {} st1" and xl: "\<forall>x \<in> X. nxt st \<le> x"
    and fo: "forward st \<longrightarrow> forward_outside X st1"
    unfolding seq_inv_def by auto
  have n2: "nxt ?st2 = Suc (nxt st1)"
    by (simp add: map_sig_def call_ufun_def signal_def subscribe_def)
  have e: "?e = nxt st1" by (simp add: map_sig_def call_ufun_def signal_def subscribe_def)
  have ve: "vals ?st2 ?e = JObj (nobj st1) (map (vals st) (seen @ [c]))"
    using arr old c by (simp add: map_sig_def call_ufun_def signal_def subscribe_def append_val_def)
  have v2: "vals ?st2 x = vals st1 x" if "x < nxt st1" for x
    using that by (simp add: map_sig_def call_ufun_def signal_def subscribe_def)
  have w2: "wf_state ?st2" by (rule wf_state_apply_efun[OF wf1])
  have w3: "wf_state ?st3" by (rule wf_state_signal[OF w2])
  have n3: "nxt ?st3 = Suc (Suc (nxt st1))" using n2 by (simp add: signal_def)
  have w4: "wf_state (subscribe ?st3 acc (SBind ?f ?r))"
    by (rule wf_state_subscribe[OF w3]) (use n3 n2 in simp)
  have c2: "confined X {} ?st2" using confined_apply_efun[OF cf, of ?f "vals st1 acc"] by simp
  have c3: "confined (insert ?r X) {} ?st3" by (rule confined_fresh[OF w2 c2])
  have c4: "confined (insert ?r X) {} (subscribe ?st3 acc (SBind ?f ?r))"
    by (rule confined_subscribe[OF c3]) (use ax in simp)
  have xl': "\<forall>x \<in> insert ?r X. nxt st \<le> x" using xl lo hi n2 by auto
  have v4: "vals (subscribe ?st3 acc (SBind ?f ?r)) ?r = JObj (nobj st1) (map (vals st) (seen @ [c]))"
    using ve by (simp add: subscribe_def signal_def)
  have o4: "vals (subscribe ?st3 acc (SBind ?f ?r)) x = vals st x" if "x < nxt st" for x
  proof -
    have "x < nxt st1" using that lo hi by simp
    hence "vals (subscribe ?st3 acc (SBind ?f ?r)) x = vals st1 x"
      using v2[of x] n2 by (simp add: subscribe_def signal_def)
    thus ?thesis using old that by simp
  qed
  have f4: "forward_outside (insert ?r X) (subscribe ?st3 acc (SBind ?f ?r))" if fw: "forward st"
  proof -
    have f1: "forward_outside X st1" using fo fw by simp
    have c1: "c < nxt st1" using c lo hi by simp
    have "nxt st1 \<notin> X" using cf by (auto simp add: confined_def)
    from forward_outside_map_sig[OF f1 c1 this, of "append_val (vals st1 acc)"]
    have "forward_outside X ?st2" by simp
    from forward_outside_subscribe_inside[OF forward_outside_fresh[OF this, of "vals ?st2 ?e"], of acc]
    show ?thesis using ax by simp
  qed
  have X: "\<exists>X'. ?r \<in> X' \<and> confined X' {} (subscribe ?st3 acc (SBind ?f ?r)) \<and> (\<forall>x \<in> X'. nxt st \<le> x) \<and>
      (forward st \<longrightarrow> forward_outside X' (subscribe ?st3 acc (SBind ?f ?r)))"
    using c4 xl' f4 by (intro exI[of _ "insert ?r X"]) simp
  have "nxt st \<le> ?r" using lo hi n2 by simp
  moreover have "?r < nxt (subscribe ?st3 acc (SBind ?f ?r))" using n3 n2 by (simp add: subscribe_def)
  ultimately show ?thesis
    unfolding seq_inv_def bind_unfold fst_conv snd_conv
    using w4 v4 o4 X by blast
qed

lemma seq_inv_fold:
  "seq_inv st seen p \<Longrightarrow> \<forall>c \<in> set es. c < nxt st \<Longrightarrow>
   seq_inv st (seen @ es) (foldl (\<lambda>(acc, st1) curr. bind st1 acc (EMapOf curr append_val)) p es)"
proof (induction es arbitrary: seen p)
  case Nil
  thus ?case by simp
next
  case (Cons c es)
  obtain acc st1 where p: "p = (acc, st1)" by (cases p)
  have "seq_inv st (seen @ [c]) (bind st1 acc (EMapOf c append_val))"
    using seq_inv_step[of st seen acc st1 c] Cons.prems p by simp
  from Cons.IH[OF this] Cons.prems(2) show ?case by (simp add: p)
qed

text \<open>
  C7 (sequence is a snapshot). For effects \<open>es\<close> of a well-formed store, the result of
  \<^verbatim>\<open>sequence(es)\<close> holds an array of the values the effects had when it was called; and
  after any later updates of containers that existed at the call (the effects of \<open>es\<close>
  among them), each of which comes to an end, the result still holds that same array.
  In a store made with \<^verbatim>\<open>signal\<close>, \<^verbatim>\<open>map\<close> and observers all such updates do come to an
  end.
\<close>

theorem sequence_is_snapshot:
  assumes "wf_state st" and "\<forall>c \<in> set es. c < nxt st"
  shows "(\<exists>k. vals (snd (sequence st es)) (fst (sequence st es)) = JObj k (map (vals st) es)) \<and>
         (\<forall>n ups st'. (\<forall>(s, v) \<in> set ups. s < nxt st) \<longrightarrow>
            set_many n (snd (sequence st es)) ups = Some st' \<longrightarrow>
            vals st' (fst (sequence st es)) = vals (snd (sequence st es)) (fst (sequence st es))) \<and>
         (forward st \<longrightarrow>
            (\<forall>ups. (\<forall>(s, v) \<in> set ups. s < nxt st) \<longrightarrow>
               (\<exists>n st'. set_many n (snd (sequence st es)) ups = Some st' \<and>
                  vals st' (fst (sequence st es)) = vals (snd (sequence st es)) (fst (sequence st es)))))"
proof -
  have inv: "seq_inv st es (sequence st es)"
    using seq_inv_fold[OF seq_inv_init[OF assms(1)] assms(2)] by (simp add: sequence_def)
  then obtain X where rx: "fst (sequence st es) \<in> X"
    and cf: "confined X {} (snd (sequence st es))" and xl: "\<forall>x \<in> X. nxt st \<le> x"
    and fo: "forward st \<longrightarrow> forward_outside X (snd (sequence st es))"
    unfolding seq_inv_def by auto
  have keep: "vals st' (fst (sequence st es)) = vals (snd (sequence st es)) (fst (sequence st es))"
    if u: "\<forall>(s, v) \<in> set ups. s < nxt st" and run: "set_many n (snd (sequence st es)) ups = Some st'"
    for n ups st'
  proof -
    have nx: "\<forall>(s, v) \<in> set ups. s \<notin> X" using u xl by fastforce
    obtain tr where e: "emitted st' = emitted (snd (sequence st es)) @ tr"
      using set_many_emitted_grows[OF run] by blast
    from set_many_frame[OF cf nx run e] rx show ?thesis by simp
  qed
  have ends: "\<exists>n st'. set_many n (snd (sequence st es)) ups = Some st' \<and>
      vals st' (fst (sequence st es)) = vals (snd (sequence st es)) (fst (sequence st es))"
    if fw: "forward st" and u: "\<forall>(s, v) \<in> set ups. s < nxt st" for ups
  proof -
    have nx: "\<forall>(s, v) \<in> set ups. s \<notin> X" using u xl by fastforce
    have "forward_outside X (snd (sequence st es))" using fo fw by simp
    from set_many_end[OF this nx] obtain n st' where
      "set_many n (snd (sequence st es)) ups = Some st'" by blast
    with keep[OF u] show ?thesis by blast
  qed
  show ?thesis using inv keep ends unfolding seq_inv_def by blast
qed

theorem sequence_is_snapshot_witness:
  "wf_state two_effects \<and> 0 < nxt two_effects \<and> 1 < nxt two_effects \<and> forward two_effects \<and>
   vals (snd (sequence two_effects [0, 1])) (fst (sequence two_effects [0, 1])) = JObj 2 [JPrim 1, JPrim 2] \<and>
   (\<exists>st'. set_many 5 (snd (sequence two_effects [0, 1])) [(0, JPrim 9), (1, JPrim 8)] = Some st' \<and>
          vals st' 0 = JPrim 9 \<and> vals st' 1 = JPrim 8 \<and>
          vals st' (fst (sequence two_effects [0, 1])) = JObj 2 [JPrim 1, JPrim 2]) \<and>
   (\<exists>n st'. set_many n (snd (sequence two_effects [0, 1])) [(1, JPrim 3), (0, JPrim 4), (1, JNaN)] = Some st' \<and>
          vals st' (fst (sequence two_effects [0, 1])) = JObj 2 [JPrim 1, JPrim 2])"
proof -
  note defs = two_effects_def sequence_def bind_def map_sig_def call_ufun_def append_val_def
    pureEffect_def effect_def signal_def subscribe_def init_state_def
  have w: "wf_state two_effects" by (simp add: wf_state_def defs)
  have c: "\<forall>c \<in> set [0, 1]. c < nxt two_effects" by (simp add: defs)
  have u: "\<forall>(s, v) \<in> set [(0, JPrim 9), (1, JPrim (8::nat))]. s < nxt two_effects" by (simp add: defs)
  have i: "vals (snd (sequence two_effects [0, 1])) (fst (sequence two_effects [0, 1])) = JObj 2 [JPrim 1, JPrim 2]"
    by (simp add: defs)
  have "set_many 5 (snd (sequence two_effects [0, 1])) [(0, JPrim 9), (1, JPrim 8)] \<noteq> None"
    by (simp add: numeral_eq_Suc defs)
  then obtain st' where s: "set_many 5 (snd (sequence two_effects [0, 1])) [(0, JPrim 9), (1, JPrim 8)] = Some st'"
    by auto
  have v: "vals st' 0 = JPrim 9 \<and> vals st' 1 = JPrim 8"
    using s by (auto simp add: numeral_eq_Suc defs)
  from sequence_is_snapshot[OF w c, THEN conjunct2, THEN conjunct1, THEN spec, THEN spec, THEN spec, THEN mp, THEN mp, OF u s] i
  have "vals st' (fst (sequence two_effects [0, 1])) = JObj 2 [JPrim 1, JPrim 2]" by simp
  moreover have "0 < nxt two_effects \<and> 1 < nxt two_effects" by (simp add: defs)
  moreover have f: "forward two_effects" by (simp add: forward_def forward_outside_def defs)
  moreover have "\<exists>n st'. set_many n (snd (sequence two_effects [0, 1])) [(1, JPrim 3), (0, JPrim 4), (1, JNaN)] = Some st' \<and>
          vals st' (fst (sequence two_effects [0, 1])) = JObj 2 [JPrim 1, JPrim 2]"
  proof -
    have u2: "\<forall>(s, v) \<in> set [(1, JPrim 3), (0, JPrim 4), (1, JNaN :: nat jsval)]. s < nxt two_effects"
      by (simp add: defs)
    from sequence_is_snapshot[OF w c, THEN conjunct2, THEN conjunct2, THEN mp, OF f, THEN spec, THEN mp, OF u2] i
    show ?thesis by simp
  qed
  ultimately show ?thesis using w i s v by blast
qed

section \<open>A send without a matching row\<close>

text \<open>
  C8 (a send that matches nothing does nothing). When no row of the table matches the
  current state, the action and its guard, \<^verbatim>\<open>send(action)\<close> leaves the machine as it is:
  the current state is kept and no subscriber is called.
\<close>
theorem send_without_match_is_noop:
  assumes "\<forall>t \<in> set (transitions m). \<not> matches env (currentState m) action t"
  shows "send env m action = m"
proof -
  have "getTransition env m action = None"
    using assms by (simp add: getTransition_def find_None_iff)
  thus ?thesis by (simp add: send_def)
qed

text \<open>
  The specification's example: the machine with the one row from \<open>idle\<close> to \<open>loading\<close> on
  \<open>start\<close> and one subscriber stays at \<open>idle\<close> on \<open>bogus\<close> and calls no one, while \<open>start\<close> calls
  the subscriber.
\<close>

theorem send_without_match_is_noop_witness:
  "currentState idle_machine = ''idle'' \<and> subscribers idle_machine = [0] \<and>
   send () idle_machine (JPrim ''bogus'') = idle_machine \<and>
   currentState (send () idle_machine (JPrim ''bogus'')) = ''idle'' \<and>
   calls_log (send () idle_machine (JPrim ''bogus'')) = [] \<and>
   calls_log (send () idle_machine (JPrim ''start'')) = [(0, ''loading'')]"
proof -
  have h: "\<forall>t \<in> set (transitions idle_machine).
             \<not> matches () (currentState idle_machine) (JPrim ''bogus'') t"
    by (simp add: idle_machine_def fsm_def fsm_subscribe_def matches_def)
  have s: "send () idle_machine (JPrim ''bogus'') = idle_machine"
    by (rule send_without_match_is_noop[OF h])
  have "calls_log (send () idle_machine (JPrim ''start'')) = [(0, ''loading'')]"
    by (simp add: send_def getTransition_def fsm_notify_def idle_machine_def fsm_def
        fsm_subscribe_def matches_def)
  moreover have "currentState idle_machine = ''idle'' \<and> subscribers idle_machine = [0] \<and>
      calls_log idle_machine = []"
    by (simp add: idle_machine_def fsm_def fsm_subscribe_def)
  ultimately show ?thesis using s by simp
qed

section \<open>The timeout race\<close>

text \<open>
  C2 (timeout resolves once), evaluated where it fails. For \<^verbatim>\<open>time(42).timeout(50)\<close> the
  timer fires first and \<^verbatim>\<open>timedOut\<close> becomes the error; the callback does not set
  \<^verbatim>\<open>hasCompleted\<close>, so the source's next emission, 100, is stored too: the result
  changes after its first resolution, and it resolved twice.
\<close>
theorem timeout_resolves_twice:
  "timedOut (timer_fires (timeout 50 (JPrim (42::nat)))) = TimeoutError 50 \<and>
   timedOut (source_set (JPrim 100) (timer_fires (timeout 50 (JPrim (42::nat))))) = Value (JPrim 100) \<and>
   stored (source_set (JPrim 100) (timer_fires (timeout 50 (JPrim (42::nat)))))
     = [TimeoutError 50, Value (JPrim 100)]"
  by (simp add: timeout_def timer_fires_def source_set_def timedOut_set_def)

text \<open>The other order is as the claim says: after an emission won, nothing changes the result.\<close>

lemma emission_first_is_final:
  "hasCompleted st \<Longrightarrow> timedOut (timer_fires st) = timedOut st \<and> timedOut (source_set v st) = timedOut st"
  by (simp add: timer_fires_def source_set_def Let_def)

section \<open>Retry and cache\<close>

lemma fset_no_mirrors:
  "mirrors w t = [] \<Longrightarrow> fset (Suc (Suc m)) env w t v = Some (w\<lparr>fvals := (fvals w)(t := v)\<rparr>)"
  by simp

lemma sum_without_nth:
  assumes "i < length xs"
  shows "sum_list (map f (take i xs @ drop (Suc i) xs)) + f (xs ! i) = sum_list (map (f :: 'a \<Rightarrow> nat) xs)"
proof -
  have "sum_list (map f xs) = sum_list (map f (take i xs @ drop i xs))" by simp
  also have "drop i xs = xs ! i # drop (Suc i) xs" using assms by (simp add: Cons_nth_drop_Suc)
  finally show ?thesis by simp
qed

lemma list_all_without_nth:
  "list_all P xs \<Longrightarrow> list_all P (take i xs @ drop (Suc i) xs)"
  by (auto simp add: list_all_iff dest: in_set_takeD in_set_dropD)

lemma fire_retrying:
  assumes rej: "\<forall>k. \<exists>e. fetcher env k = Inl e"
    and inv: "retrying r count w"
    and f: "fire (Suc (Suc m)) env w i = Some w'"
  shows "retrying r count w'"
proof (cases "i < length (pending w)")
  case False
  thus ?thesis using f inv by (simp add: fire_def)
next
  case True
  let ?rest = "take i (pending w) @ drop (Suc i) (pending w)"
  let ?w1 = "w\<lparr>pending := ?rest\<rparr>"
  from inv have mr: "mirrors w r = []" and all: "list_all (\<lambda>t. task_instance t = r) (pending w)"
    and tot: "calls w + sum_list (map invocations_left (pending w)) = count"
    unfolding retrying_def by auto
  have all1: "list_all (\<lambda>t. task_instance t = r) ?rest" by (rule list_all_without_nth[OF all])
  have ti: "task_instance (pending w ! i) = r" using all True by (simp add: list_all_length)
  have sum: "sum_list (map invocations_left ?rest) + invocations_left (pending w ! i)
             = sum_list (map invocations_left (pending w))"
    by (rule sum_without_nth[OF True])
  show ?thesis
  proof (cases "pending w ! i")
    case (AwaitExec tgt k)
    obtain e where e: "fetcher env k = Inl e" using rej by blast
    have "tgt = r" using ti AwaitExec by simp
    hence "w' = ?w1\<lparr>fvals := (fvals ?w1)(r := st_error e)\<rparr>"
      using f True AwaitExec e mr by (simp add: fire_def)
    thus ?thesis using mr all1 tot sum AwaitExec by (auto simp add: retrying_def)
  next
    case (AwaitAttempt rf n left k)
    obtain e where e: "fetcher env k = Inl e" using rej by blast
    have rf: "rf = r" using ti AwaitAttempt by simp
    show ?thesis
    proof (cases "left > 0")
      case True
      hence "w' = ?w1\<lparr>pending := ?rest @ [Timer (2 ^ (n - left) * 1000) r n (left - 1)],
                        timeouts := timeouts ?w1 @ [2 ^ (n - left) * 1000]\<rparr>"
        using f \<open>i < length (pending w)\<close> AwaitAttempt e rf by (simp add: fire_def)
      thus ?thesis using mr all1 tot sum AwaitAttempt True by (auto simp add: retrying_def)
    next
      case False
      hence "w' = ?w1\<lparr>fvals := (fvals ?w1)(r := st_error e)\<rparr>"
        using f True AwaitAttempt e rf mr by (simp add: fire_def)
      thus ?thesis using mr all1 tot sum AwaitAttempt False by (auto simp add: retrying_def)
    qed
  next
    case (Timer delay rf n left)
    have rf: "rf = r" using ti Timer by simp
    have "w' = invoke (AwaitAttempt r n left) (?w1\<lparr>fvals := (fvals ?w1)(r := st_loading)\<rparr>)"
      using f True Timer rf mr by (simp add: fire_def attemptFetch_def)
    thus ?thesis using mr all1 tot sum Timer by (auto simp add: retrying_def invoke_def)
  qed
qed

lemma run_retrying:
  assumes rej: "\<forall>k. \<exists>e. fetcher env k = Inl e"
  shows "retrying r count w \<Longrightarrow> run (Suc (Suc m)) env w sched = Some w' \<Longrightarrow> retrying r count w'"
proof (induction sched arbitrary: w)
  case Nil
  thus ?case by simp
next
  case (Cons i sched)
  from Cons.prems(2) obtain w1 where f: "fire (Suc (Suc m)) env w i = Some w1"
    and r: "run (Suc (Suc m)) env w1 sched = Some w'"
    by (auto split: option.splits)
  from Cons.IH[OF fire_retrying[OF rej Cons.prems(1) f] r] show ?case .
qed

lemma retry_retrying:
  assumes e: "pending w = []" and r: "retry (Suc (Suc m)) env w n = Some (rf, w1)"
  shows "retrying rf (calls w + n + 2) w1"
  using e r
  by (auto simp add: retry_def fetch_def executeFetch_def attemptFetch_def invoke_def retrying_def
      split: option.splits)

text \<open>
  Whatever the number \<open>n\<close> of retries and whatever the order in which the pending
  promises and timers are run: when every invocation of the fetcher is rejected and no
  event is left, \<^verbatim>\<open>retry(n)\<close> has invoked the fetcher \<open>n + 2\<close> times and the instance holds
  an error state.
\<close>

lemma retry_invocations:
  assumes "\<forall>k. \<exists>e. fetcher env k = Inl e" and "pending w = []"
    and "retry (Suc (Suc m)) env w n = Some (rf, w1)"
    and "run (Suc (Suc m)) env w1 sched = Some w2" and "pending w2 = []"
  shows "calls w2 = calls w + n + 2 \<and> (\<exists>e. fvals w2 rf = st_error e)"
  using run_retrying[OF assms(1) retry_retrying[OF assms(2,3)] assms(4)] assms(5)
  by (simp add: retrying_def)

text \<open>
  C1 (retry terminates after three attempts), evaluated where it fails. The fetcher
  rejects on every invocation. \<^verbatim>\<open>retry(2)\<close> and the seven events that follow it (promises
  and timers, each run as soon as it is pending) end with no event left, the error state
  \<^verbatim>\<open>{loading: false, data: undefined, error}\<close> and the backoff delays 1000 and 2000 ms;
  but the fetcher was invoked four times, not three: \<^verbatim>\<open>fetch(fetcher, deps)\<close>, which
  \<^verbatim>\<open>retry\<close> calls to make the new instance, executes a fetch of its own before
  \<^verbatim>\<open>attemptFetch\<close> makes its three.
\<close>
theorem retry_two_invokes_fetcher_four_times:
  "(case retry (Suc (Suc 0)) failing_env init_world 2 of
      None \<Rightarrow> None
    | Some (retryFetch, w) \<Rightarrow>
        map_option (\<lambda>w'. (calls w' - calls init_world, fvals w' retryFetch, pending w', timeouts w'))
          (run (Suc (Suc 0)) failing_env w [0, 0, 0, 0, 0, 0, 0]))
   = Some (4, st_error ''Network error'', [], [1000, 2000])"
  by (simp add: retry_def fetch_def executeFetch_def attemptFetch_def invoke_def fire_def
      failing_env_def init_world_def st_loading_def st_error_def st_data_def)

text \<open>
  C6 (a cache hit makes no network call), evaluated where it fails. The storage holds a
  young entry with the data 3 and the fetcher resolves to 7. \<^verbatim>\<open>fetch\<close> makes the base
  instance (one invocation); \<^verbatim>\<open>cache('user', 300000)\<close> on it returns an instance that
  holds \<^verbatim>\<open>{data: 3, loading: false}\<close>, yet the fetcher has been invoked a second time,
  by the \<^verbatim>\<open>fetch(fetcher, deps)\<close> that makes the cached instance, and when that promise
  settles the cached instance holds 7.
\<close>
theorem cache_hit_invokes_fetcher:
  "(case fetch (Suc (Suc 0)) resolving_env cached_world of
      None \<Rightarrow> None
    | Some (base, w1) \<Rightarrow>
        (case cache (Suc (Suc 0)) resolving_env w1 base ''user'' 300000 of
           None \<Rightarrow> None
         | Some (cached, w2) \<Rightarrow>
             Some (calls w1, calls w2, fvals w2 cached, pending w2,
                   map_option (\<lambda>w3. fvals w3 cached) (fire (Suc (Suc 0)) resolving_env w2 1))))
   = Some (1, 2, st_data 3, [AwaitExec 0 0, AwaitExec 1 1], Some (st_data 7))"
  by (simp add: cache_def cache_hit_def fetch_def executeFetch_def invoke_def fire_def
      resolving_env_def failing_env_def cached_world_def init_world_def cacheKey_def cacheTimeKey_def
      st_loading_def st_error_def st_data_def)

end
